theory Spec2Isabelle
  imports Complex_Main "HOL-Library.Sublist"
begin

section \<open>JavaScript strings\<close>

text \<open>
  A JavaScript string is a sequence of UTF-16 code units. The model carries strings whose
  code units lie below 256 (the Latin-1 range) as \<^typ>\<open>string\<close>, one \<^typ>\<open>char\<close> per
  code unit.
\<close>

definition nl :: char where
  "nl = CHR 0x0A"

definition code_unit :: "char \<Rightarrow> nat" where
  "code_unit c = of_char c"

text \<open>\<^verbatim>\<open>String.prototype.trim\<close>: the white space and line terminators of the range.\<close>

definition is_space :: "char \<Rightarrow> bool" where
  "is_space c = (code_unit c \<in> {9, 10, 11, 12, 13, 32, 160})"

definition trim :: "string \<Rightarrow> string" where
  "trim s = rev (dropWhile is_space (rev (dropWhile is_space s)))"

text \<open>\<^verbatim>\<open>s.includes(u)\<close>: \<open>u\<close> occurs in \<open>s\<close> as a contiguous substring.\<close>

fun starts_with :: "string \<Rightarrow> string \<Rightarrow> bool" where
  "starts_with s [] = True"
| "starts_with [] (u # us) = False"
| "starts_with (c # s) (u # us) = (c = u \<and> starts_with s us)"

fun includes_str :: "string \<Rightarrow> string \<Rightarrow> bool" where
  "includes_str [] u = (u = [])"
| "includes_str (c # s) u = (starts_with (c # s) u \<or> includes_str s u)"

definition endsWith :: "string \<Rightarrow> string \<Rightarrow> bool" where
  "endsWith s u = starts_with (rev s) (rev u)"

section \<open>JSON values\<close>

text \<open>
  The value \<^verbatim>\<open>JSON.parse\<close> returns, with \<open>JUndefined\<close> for a property that is absent.
  An object is the list of its own properties. The validator looks at a number only through
  its truthiness, so the model carries integers.
\<close>

datatype json =
    JUndefined
  | JNull
  | JBool bool
  | JNum int
  | JStr string
  | JArr "json list"
  | JObj "(string \<times> json) list"

text \<open>\<^verbatim>\<open>!v\<close> is \<open>\<not> truthy v\<close>.\<close>

fun truthy :: "json \<Rightarrow> bool" where
  "truthy JUndefined = False"
| "truthy JNull = False"
| "truthy (JBool b) = b"
| "truthy (JNum n) = (n \<noteq> 0)"
| "truthy (JStr s) = (s \<noteq> [])"
| "truthy (JArr xs) = True"
| "truthy (JObj kvs) = True"

text \<open>\<^verbatim>\<open>v.path\<close> for a value that is neither null nor undefined.\<close>

fun get_path :: "json \<Rightarrow> json" where
  "get_path (JObj kvs) = (case map_of kvs ''path'' of Some v \<Rightarrow> v | None \<Rightarrow> JUndefined)"
| "get_path v = JUndefined"

text \<open>\<^verbatim>\<open>if (!Array.isArray(v)) v = []\<close>\<close>

fun as_array :: "json \<Rightarrow> json list" where
  "as_array (JArr xs) = xs"
| "as_array v = []"

section \<open>Retrieval result and model answer\<close>

text \<open>
  A double, as far as the program looks at one: \<^verbatim>\<open>NaN\<close>, an infinity, or a finite value,
  which is a rational number (the two zeros are one value here). The arithmetic of doubles
  is not modelled.
\<close>

datatype double = NaN | NegInfinity | Finite rat | Infinity

text \<open>\<^verbatim>\<open>a < b\<close> on doubles; it is false when one of the two is \<^verbatim>\<open>NaN\<close>.\<close>

fun double_less :: "double \<Rightarrow> double \<Rightarrow> bool" where
  "double_less (Finite x) (Finite y) = (x < y)"
| "double_less (Finite x) Infinity = True"
| "double_less NegInfinity (Finite y) = True"
| "double_less NegInfinity Infinity = True"
| "double_less a b = False"

text \<open>The truthiness of a number: \<^verbatim>\<open>0\<close> and \<^verbatim>\<open>NaN\<close> are falsy.\<close>

definition number_truthy :: "double \<Rightarrow> bool" where
  "number_truthy d = (d \<noteq> NaN \<and> d \<noteq> Finite 0)"

text \<open>
  An entry of \<^verbatim>\<open>result.files\<close>. The ranked pass pushes
  \<^verbatim>\<open>{ path, content, truncated, bytes, score }\<close>, the manifest pass only
  \<^verbatim>\<open>{ path, content }\<close>: the other three fields are then absent.
\<close>

record ret_file =
  path :: string
  content :: string
  truncated :: "bool option"
  bytes :: "nat option"
  score :: "double option"

record retrieval =
  files :: "ret_file list"
  totalBytes :: nat

text \<open>
  The object parsed from the model's reply, by the seven properties the handler reads and
  writes; every other property is left as it is.
\<close>

record model_answer =
  answer :: json
  references :: json
  trace :: json
  sources :: json
  missing :: json
  cannot_answer :: json
  reason :: json

text \<open>What the handler sends last: an \<^verbatim>\<open>error\<close> event or a \<^verbatim>\<open>result\<close> event.\<close>

datatype outcome = ErrorEvent | Result model_answer

section \<open>The answer-grounding validator (\<^verbatim>\<open>/api/walkthrough\<close>, after the reply is parsed)\<close>

definition availablePaths :: "ret_file list \<Rightarrow> string set" where
  "availablePaths fs = set (map path fs)"

definition allFetched :: "ret_file list \<Rightarrow> string list" where
  "allFetched fs = map path fs"

text \<open>Shape normalization of \<open>sources\<close>, \<open>references\<close> and \<open>missing\<close>.\<close>

definition normalize :: "model_answer \<Rightarrow> model_answer" where
  "normalize j = j\<lparr> sources := JArr (as_array (sources j)),
                    references := JArr (as_array (references j)),
                    missing := JArr (as_array (missing j)) \<rparr>"

text \<open>\<^verbatim>\<open>typeof s === 'string' && availablePaths.has(s)\<close>\<close>

fun source_ok :: "ret_file list \<Rightarrow> json \<Rightarrow> bool" where
  "source_ok fs (JStr s) = (s \<in> availablePaths fs)"
| "source_ok fs v = False"

text \<open>\<^verbatim>\<open>r && typeof r.path === 'string' && availablePaths.has(r.path)\<close>\<close>

definition reference_ok :: "ret_file list \<Rightarrow> json \<Rightarrow> bool" where
  "reference_ok fs r = (truthy r \<and> (case get_path r of JStr p \<Rightarrow> p \<in> availablePaths fs | _ \<Rightarrow> False))"

definition ground_filter :: "ret_file list \<Rightarrow> model_answer \<Rightarrow> model_answer" where
  "ground_filter fs j = j\<lparr> sources := JArr (filter (source_ok fs) (as_array (sources j))),
                            references := JArr (filter (reference_ok fs) (as_array (references j))) \<rparr>"

text \<open>Auto-populate \<open>sources\<close> with the first five fetched paths.\<close>

definition backfill_sources :: "ret_file list \<Rightarrow> model_answer \<Rightarrow> model_answer" where
  "backfill_sources fs j =
     (if length (as_array (sources j)) = 0 \<and> length (allFetched fs) > 0 \<and> cannot_answer j \<noteq> JBool True
      then j\<lparr> sources := JArr (map JStr (take (min 5 (length (allFetched fs))) (allFetched fs))) \<rparr>
      else j)"

text \<open>\<^verbatim>\<open>filesData.files.find(f => f.path === json.sources[0])\<close>\<close>

definition find_source :: "ret_file list \<Rightarrow> json \<Rightarrow> ret_file option" where
  "find_source fs s = find (\<lambda>f. JStr (path f) = s) fs"

text \<open>Synthesize one reference from the first source.\<close>

definition backfill_references :: "ret_file list \<Rightarrow> model_answer \<Rightarrow> model_answer" where
  "backfill_references fs j =
     (if length (as_array (references j)) = 0 \<and> length (as_array (sources j)) > 0 \<and> cannot_answer j \<noteq> JBool True
      then (case find_source fs (hd (as_array (sources j))) of
              Some first \<Rightarrow>
                j\<lparr> references := JArr (as_array (references j) @
                      [JObj [(''path'', JStr (path first)), (''excerpt'', JStr (take 300 (content first)))]]) \<rparr>
            | None \<Rightarrow> j)
      else j)"

text \<open>The answer after shape normalization, path filtering and the two back-fill steps.\<close>

definition grounded :: "ret_file list \<Rightarrow> model_answer \<Rightarrow> model_answer" where
  "grounded fs j = backfill_references fs (backfill_sources fs (ground_filter fs (normalize j)))"

definition canonical_reason :: string where
  "canonical_reason = ''The information required to answer this question is not present in the provided repository files.''"

text \<open>
  \<^verbatim>\<open>!json.answer || json.answer.trim() === ''\<close>: \<open>None\<close> where the call of \<^verbatim>\<open>trim\<close>
  throws a TypeError because the truthy answer is not a string.
\<close>

fun answer_blank :: "json \<Rightarrow> bool option" where
  "answer_blank (JStr s) = Some (s = [] \<or> trim s = [])"
| "answer_blank v = (if truthy v then None else Some True)"

text \<open>\<^verbatim>\<open>if (!json.reason) json.reason = d\<close>\<close>

definition reason_or :: "string \<Rightarrow> json \<Rightarrow> json" where
  "reason_or d r = (if truthy r then r else JStr d)"

definition cannot_answer_result :: "model_answer \<Rightarrow> model_answer" where
  "cannot_answer_result j = j\<lparr> cannot_answer := JBool True, answer := JStr [], references := JArr [],
        trace := JArr [], missing := JArr [], reason := reason_or canonical_reason (reason j) \<rparr>"

text \<open>
  The decision of the final \<open>cannot_answer\<close>. \<open>Inl\<close>: the exception reaches the handler's
  \<^verbatim>\<open>catch\<close>; \<open>Inr (True, r)\<close>: the result \<open>r\<close> is sent at once; \<open>Inr (False, r)\<close>: \<open>r\<close>
  goes on to the prose scrub.
\<close>

definition resolve :: "model_answer \<Rightarrow> unit + bool \<times> model_answer" where
  "resolve j =
     (if cannot_answer j = JBool True then Inr (True, cannot_answer_result j)
      else if length (as_array (references j)) = 0 then
        (case answer_blank (answer j) of
           None \<Rightarrow> Inl ()
         | Some True \<Rightarrow> Inr (True, cannot_answer_result j)
         | Some False \<Rightarrow> Inr (False, j\<lparr> cannot_answer := JBool False, reason := reason_or [] (reason j) \<rparr>))
      else Inr (False, j\<lparr> cannot_answer := JBool False, reason := reason_or [] (reason j) \<rparr>))"

section \<open>The prose hallucination scrub\<close>

text \<open>
  The character class \<^verbatim>\<open>[A-Za-z0-9_\-\.\/]\<close> and the alternatives of
  \<^verbatim>\<open>(?:js|jsx|ts|tsx|py|java|go|rb|php|rs|c|cpp|cs|json|md|html|css)\<close>, in the order in
  which the regular expression tries them.
\<close>

definition is_cls :: "char \<Rightarrow> bool" where
  "is_cls c = (c \<in> set ''ABCDEFGHIJKLMNOPQRSTUVWXYZabcdefghijklmnopqrstuvwxyz0123456789_-./'')"

definition file_exts :: "string list" where
  "file_exts = [''js'', ''jsx'', ''ts'', ''tsx'', ''py'', ''java'', ''go'', ''rb'', ''php'', ''rs'',
                ''c'', ''cpp'', ''cs'', ''json'', ''md'', ''html'', ''css'']"

definition ext_at :: "string \<Rightarrow> string option" where
  "ext_at s = find (\<lambda>e. starts_with s e) file_exts"

text \<open>
  \<open>match_tail s\<close>: the length of the match of \<^verbatim>\<open>[A-Za-z0-9_\-\.\/]*\.(?:js|...)\<close> at the head
  of \<open>s\<close>. The quantifier is greedy: the class takes the next character whenever the rest
  still matches, and only otherwise is that character the literal dot.
\<close>

fun match_tail :: "string \<Rightarrow> nat option" where
  "match_tail [] = None"
| "match_tail (c # s) =
     (if is_cls c then
        (case match_tail s of
           Some n \<Rightarrow> Some (Suc n)
         | None \<Rightarrow> (if c = CHR ''.'' then map_option (\<lambda>e. Suc (length e)) (ext_at s) else None))
      else None)"

text \<open>The match of the whole \<^verbatim>\<open>fileLikeRegex\<close> at the head of \<open>s\<close>: one class character at least.\<close>

fun match_here :: "string \<Rightarrow> nat option" where
  "match_here [] = None"
| "match_here (c # s) = (if is_cls c then map_option Suc (match_tail s) else None)"

text \<open>
  \<^verbatim>\<open>answerText.match(fileLikeRegex) || []\<close> with the \<^verbatim>\<open>g\<close> flag: all matches from left
  to right, the search resuming at the end of the last match. The first argument counts
  the characters of the current match still to be passed over.
\<close>

fun scan :: "nat \<Rightarrow> string \<Rightarrow> string list" where
  "scan k [] = []"
| "scan (Suc k) (c # s) = scan k s"
| "scan 0 (c # s) =
     (case match_here (c # s) of
        Some n \<Rightarrow> take n (c # s) # scan (n - 1) s
      | None \<Rightarrow> scan 0 s)"

definition match_all :: "string \<Rightarrow> string list" where
  "match_all s = scan 0 s"

text \<open>\<^verbatim>\<open>Array.from(new Set(xs))\<close>: the first occurrence of each element, in order.\<close>

definition uniq :: "'a list \<Rightarrow> 'a list" where
  "uniq xs = rev (remdups (rev xs))"

text \<open>\<^verbatim>\<open>answerText.split(/\n\n+/)\<close>\<close>

function split_paras :: "string \<Rightarrow> string list" where
  "split_paras [] = [[]]"
| "split_paras (c # s) =
     (if c = nl \<and> starts_with s [nl] then [] # split_paras (dropWhile (\<lambda>x. x = nl) s)
      else (case split_paras s of [] \<Rightarrow> [[c]] | p # ps \<Rightarrow> (c # p) # ps))"
  by pat_completeness auto
termination
  by (relation "measure length") (auto simp: less_Suc_eq_le length_dropWhile_le)

text \<open>\<^verbatim>\<open>filteredParas.join('\n\n')\<close>\<close>

fun join_paras :: "string list \<Rightarrow> string" where
  "join_paras [] = []"
| "join_paras [p] = p"
| "join_paras (p # q # ps) = p @ [nl, nl] @ join_paras (q # ps)"

text \<open>
  \<^verbatim>\<open>u.replace(/\.[^.]+$/, '')\<close>: the last dot and what follows it are removed, when
  something follows it.
\<close>

definition strip_ext :: "string \<Rightarrow> string" where
  "strip_ext u =
     (let suffix = takeWhile (\<lambda>c. c \<noteq> CHR ''.'') (rev u)
      in if suffix \<noteq> [] \<and> length suffix < length u then take (length u - length suffix - 1) u else u)"

text \<open>\<^verbatim>\<open>if (!json.missing.includes(a)) json.missing.push(a)\<close>\<close>

definition add_missing :: "json list \<Rightarrow> string \<Rightarrow> json list" where
  "add_missing ms a = (if JStr a \<in> set ms then ms else ms @ [JStr a])"

definition absent_sentence :: string where
  "absent_sentence = ''Some requested components or files are not present in this repository.''"

definition removed_reason :: string where
  "removed_reason = ''Removed references to files not present in repository.''"

text \<open>\<^verbatim>\<open>typeof json.answer === 'string' ? json.answer : ''\<close>\<close>

fun answer_text :: "json \<Rightarrow> string" where
  "answer_text (JStr s) = s"
| "answer_text v = []"

text \<open>
  The paragraphs that stay: those that mention no unknown file, and those whose trimmed
  text is a fetched path.
\<close>

definition keep_para :: "ret_file list \<Rightarrow> string list \<Rightarrow> string \<Rightarrow> bool" where
  "keep_para fs unknown p = (\<not> list_ex (\<lambda>u. includes_str p u) unknown \<or> trim p \<in> availablePaths fs)"

text \<open>
  The file-like tokens of the answer that are not fetched paths:
  \<^verbatim>\<open>mentioned.filter(m => !availablePaths.has(m))\<close>.
\<close>

definition unknown_files :: "ret_file list \<Rightarrow> string \<Rightarrow> string list" where
  "unknown_files fs answerText =
     (let mentioned = uniq (match_all answerText)
      in filter (\<lambda>m. m \<notin> availablePaths fs) mentioned)"

text \<open>
  The scrub step. \<open>missing\<close> is an array here: the handler normalized it before.
\<close>

definition scrub :: "ret_file list \<Rightarrow> model_answer \<Rightarrow> model_answer" where
  "scrub fs j =
     (let answerText = answer_text (answer j) in
      if answerText = [] then j
      else
        let unknown = unknown_files fs answerText
        in if length unknown > 0 then
             let paras = split_paras answerText;
                 filteredParas = filter (keep_para fs unknown) paras;
                 newAnswer = trim (join_paras filteredParas);
                 j1 = (if newAnswer = [] then j\<lparr> cannot_answer := JBool False \<rparr> else j);
                 newAnswer' = (if newAnswer = [] then absent_sentence else newAnswer);
                 additions = map strip_ext unknown;
                 j2 = j1\<lparr> answer := JStr newAnswer',
                          missing := JArr (foldl add_missing (as_array (missing j1)) additions) \<rparr>
             in j2\<lparr> reason := reason_or removed_reason (reason j2) \<rparr>
           else j)"

section \<open>The walkthrough handler\<close>

definition validateAnswer :: "ret_file list \<Rightarrow> model_answer \<Rightarrow> outcome" where
  "validateAnswer fs j =
     (case resolve (grounded fs j) of
        Inl e \<Rightarrow> ErrorEvent
      | Inr (True, r) \<Rightarrow> Result r
      | Inr (False, r) \<Rightarrow> Result (scrub fs r))"

definition no_files_reason :: string where
  "no_files_reason = ''No files could be fetched from GitHub (possible 403 rate limit, missing GITHUB_TOKEN for private repo, or invalid repository). Configure GITHUB_TOKEN and try again.''"

definition no_files_result :: model_answer where
  "no_files_result = \<lparr> answer = JStr [], references = JArr [], trace = JArr [], sources = JArr [],
       missing = JArr [], cannot_answer = JBool True, reason = JStr no_files_reason \<rparr>"

text \<open>\<^verbatim>\<open>json.k\<close> for a property name \<open>k\<close> that no prototype defines.\<close>

definition get_prop :: "(string \<times> json) list \<Rightarrow> string \<Rightarrow> json" where
  "get_prop kvs k = (case map_of kvs k of Some v \<Rightarrow> v | None \<Rightarrow> JUndefined)"

text \<open>
  The parsed reply as the handler sees it. An array has none of the seven properties and
  takes them like an object; on a primitive the assignments do nothing and
  \<^verbatim>\<open>json.sources.filter\<close> throws a TypeError.
\<close>

fun to_answer :: "json \<Rightarrow> model_answer option" where
  "to_answer (JObj kvs) = Some \<lparr> answer = get_prop kvs ''answer'', references = get_prop kvs ''references'',
       trace = get_prop kvs ''trace'', sources = get_prop kvs ''sources'', missing = get_prop kvs ''missing'',
       cannot_answer = get_prop kvs ''cannot_answer'', reason = get_prop kvs ''reason'' \<rparr>"
| "to_answer (JArr xs) = Some \<lparr> answer = JUndefined, references = JUndefined, trace = JUndefined,
       sources = JUndefined, missing = JUndefined, cannot_answer = JUndefined, reason = JUndefined \<rparr>"
| "to_answer v = None"

text \<open>
  The handler from the check of the fetched files on. \<open>openai\<close>: the client is configured;
  \<open>reply\<close>: the JSON parsed from the completion, \<open>None\<close> when the completion call throws
  or its text holds no parseable JSON.
\<close>

definition walkthrough :: "retrieval \<Rightarrow> bool \<Rightarrow> json option \<Rightarrow> outcome" where
  "walkthrough filesData openai reply =
     (if length (files filesData) = 0 then Result no_files_result
      else if \<not> openai then ErrorEvent
      else (case reply of
              None \<Rightarrow> ErrorEvent
            | Some v \<Rightarrow>
                if \<not> truthy v then ErrorEvent
                else (case to_answer v of
                        None \<Rightarrow> ErrorEvent
                      | Some j \<Rightarrow> validateAnswer (files filesData) j)))"

section \<open>File selection: \<^verbatim>\<open>fetchRepoTreeAndFiles\<close>\<close>

subsection \<open>String helpers\<close>

text \<open>\<^verbatim>\<open>\w\<close> is \<^verbatim>\<open>[A-Za-z0-9_]\<close>.\<close>

definition is_word :: "char \<Rightarrow> bool" where
  "is_word c = (c \<in> set ''ABCDEFGHIJKLMNOPQRSTUVWXYZabcdefghijklmnopqrstuvwxyz0123456789_'')"

text \<open>\<^verbatim>\<open>toLowerCase\<close> on the code units of the range.\<close>

definition to_lower :: "char \<Rightarrow> char" where
  "to_lower c =
     (let n = code_unit c
      in if (65 \<le> n \<and> n \<le> 90) \<or> (192 \<le> n \<and> n \<le> 222 \<and> n \<noteq> 215) then char_of (n + 32) else c)"

definition toLowerCase :: "string \<Rightarrow> string" where
  "toLowerCase s = map to_lower s"

text \<open>\<^verbatim>\<open>s.split(/\W+/)\<close>\<close>

function split_nonword :: "string \<Rightarrow> string list" where
  "split_nonword [] = [[]]"
| "split_nonword (c # s) =
     (if \<not> is_word c then [] # split_nonword (dropWhile (\<lambda>x. \<not> is_word x) s)
      else (case split_nonword s of [] \<Rightarrow> [[c]] | p # ps \<Rightarrow> (c # p) # ps))"
  by pat_completeness auto
termination
  by (relation "measure length") (auto simp: less_Suc_eq_le length_dropWhile_le)

text \<open>
  \<^verbatim>\<open>(s.match(new RegExp(k, 'g')) || []).length\<close> for a keyword \<open>k\<close>, which is made of word
  characters only: the occurrences of \<open>k\<close> from left to right, the search resuming at the
  end of each. The first argument counts the characters of the current occurrence still to
  be passed over.
\<close>

fun count_from :: "nat \<Rightarrow> string \<Rightarrow> string \<Rightarrow> nat" where
  "count_from n k [] = (if n = 0 \<and> k = [] then 1 else 0)"
| "count_from (Suc n) k (c # s) = count_from n k s"
| "count_from 0 k (c # s) =
     (if starts_with (c # s) k then Suc (count_from (length k - 1) k s) else count_from 0 k s)"

definition count_matches :: "string \<Rightarrow> string \<Rightarrow> nat" where
  "count_matches k s = count_from 0 k s"

text \<open>\<^verbatim>\<open>Buffer.byteLength(s, 'utf8')\<close>: one byte below 128, two bytes from 128 to 255.\<close>

definition byteLength :: "string \<Rightarrow> nat" where
  "byteLength s = sum_list (map (\<lambda>c. if code_unit c < 128 then 1 else 2) s)"

text \<open>\<^verbatim>\<open>s.replace(u, '')\<close> for a string \<open>u\<close>: the first occurrence is removed.\<close>

fun remove_first :: "string \<Rightarrow> string \<Rightarrow> string" where
  "remove_first u [] = []"
| "remove_first u (c # s) = (if starts_with (c # s) u then drop (length u) (c # s) else c # remove_first u s)"

text \<open>\<^verbatim>\<open>p.split('/').length\<close>\<close>

definition depth :: "string \<Rightarrow> nat" where
  "depth p = Suc (length (filter (\<lambda>c. c = CHR ''/'') p))"

text \<open>
  \<^verbatim>\<open>Array.prototype.sort\<close> is stable. \<open>precedes a b\<close> stands for a comparator result
  \<^verbatim>\<open>cmp(a, b) <= 0\<close>; when the comparator orders the elements of the array by a key, the
  sorted array is the one the stable insertion below computes.
\<close>

fun insert_sorted :: "('a \<Rightarrow> 'a \<Rightarrow> bool) \<Rightarrow> 'a \<Rightarrow> 'a list \<Rightarrow> 'a list" where
  "insert_sorted precedes x [] = [x]"
| "insert_sorted precedes x (y # ys) = (if precedes x y then x # y # ys else y # insert_sorted precedes x ys)"

definition sort_cmp :: "('a \<Rightarrow> 'a \<Rightarrow> bool) \<Rightarrow> 'a list \<Rightarrow> 'a list" where
  "sort_cmp precedes xs = foldr (insert_sorted precedes) xs []"

text \<open>
  A comparator is consistent on the elements of an array when it orders them:
  \<^verbatim>\<open>cmp(a, b) <= 0\<close> is total and transitive on them. For the comparators of this file,
  whose results change sign when the arguments are exchanged, this is the consistency under
  which ECMAScript defines the sorted order.
\<close>

definition consistent_on :: "('a \<Rightarrow> 'a \<Rightarrow> bool) \<Rightarrow> 'a list \<Rightarrow> bool" where
  "consistent_on precedes xs =
     list_all (\<lambda>a. list_all (\<lambda>b. (precedes a b \<or> precedes b a)
        \<and> list_all (\<lambda>c. if precedes a b \<and> precedes b c then precedes a c else True) xs) xs) xs"

text \<open>
  When the comparator is not consistent on the elements of the array, the order in which
  \<^verbatim>\<open>sort\<close> leaves them is implementation-defined: some rearrangement of the array. The model
  takes it from the engine as a list of choices: each choice picks, among the elements not
  placed yet, the one that comes next (the first of them when the choices run out).
\<close>

function arrange :: "nat list \<Rightarrow> 'a list \<Rightarrow> 'a list" where
  "arrange choices [] = []"
| "arrange choices (x # xs) =
     (let i = (case choices of [] \<Rightarrow> 0 | c # cs \<Rightarrow> c mod Suc (length xs))
      in (x # xs) ! i # arrange (tl choices) (take i (x # xs) @ drop (Suc i) (x # xs)))"
  by pat_completeness auto
termination
  by (relation "measure (\<lambda>(choices, xs). length xs)") (auto split: list.splits)

subsection \<open>Data\<close>

text \<open>An entry of the git tree: \<^verbatim>\<open>{ path, type, size }\<close>, the size being optional.\<close>

record tree_entry =
  t_path :: string
  t_type :: string
  t_size :: "nat option"

text \<open>The per-repository rules of \<^verbatim>\<open>rulesStore\<close>.\<close>

record rules =
  whitelist :: "string list"
  blacklist :: "string list"

text \<open>An entry of \<^verbatim>\<open>scoredFiles\<close>; the two semantic fields are set by the re-ranker.\<close>

record scored_file =
  sf_path :: string
  sf_content :: string
  sf_bytes :: nat
  sf_score :: nat
  sf_originalItem :: tree_entry
  sf_semanticScore :: "double option"
  sf_finalScore :: "double option"

text \<open>
  What the embedding block does up to its sort. \<open>EmbError\<close>: it throws before any file is
  annotated (the embedding call fails, or the response holds no question vector).
  \<open>EmbSims sims\<close>: the call returns; \<open>sims\<close> are the values of \<^verbatim>\<open>sim\<close> that the loop over
  the files computes, in order, up to the first file at which \<^verbatim>\<open>dot\<close> throws (a file
  without a vector in the response, the question vector having a non-zero norm). Fewer
  values than files mean that the block throws there, after the files before it have been
  annotated. A value is the double the code computes; it is \<^verbatim>\<open>NaN\<close> for a file vector
  of norm zero or shorter than the question vector.
\<close>

datatype emb_outcome = EmbError | EmbSims "double list"

text \<open>
  The response to a contents request, as far as the selector reads it: \<open>fr_content\<close> is
  \<^verbatim>\<open>data.content\<close>, the payload in its transfer encoding (empty when the property is
  missing), and \<open>fr_text\<close> is the text \<^verbatim>\<open>Buffer.from(data.content, ...).toString('utf8')\<close>
  decoded from it. A payload that is not empty may decode to the empty text (a payload of
  line breaks only).
\<close>

record file_response =
  fr_content :: string
  fr_text :: string

text \<open>
  The collaborators of one call. \<open>env_tree\<close>: the entries of the recursive tree, \<open>None\<close>
  when the request for the repository or for the tree fails after its retries.
  \<open>env_fetch p\<close> and \<open>env_fetch_dep p\<close>: the response to the contents request for a
  candidate and for a manifest, \<open>None\<close> when the request fails, the response has no
  \<^verbatim>\<open>data\<close>, or the decoding throws. \<open>env_openai\<close>: \<^verbatim>\<open>openai && openai.embeddings\<close>.
  \<open>env_blend s sim\<close>: the double that \<^verbatim>\<open>(s || 0) * 0.2 + sim * 100\<close> evaluates to, for a
  lexical score \<open>s\<close>; the arithmetic of doubles is not modelled, and a theorem holds
  whatever this function is. \<open>env_choices\<close>: the choices of the engine's sort, see
  \<open>arrange\<close>.
\<close>

record env =
  env_tree :: "tree_entry list option"
  env_rules :: rules
  env_fetch :: "string \<Rightarrow> file_response option"
  env_fetch_dep :: "string \<Rightarrow> file_response option"
  env_openai :: bool
  env_embed :: emb_outcome
  env_blend :: "nat \<Rightarrow> double \<Rightarrow> double"
  env_choices :: "nat list"

text \<open>
  The options \<^verbatim>\<open>{ maxFiles, maxBytes }\<close> of a call, each a count (a natural number) or
  absent.
\<close>

record opts =
  opt_maxFiles :: "nat option"
  opt_maxBytes :: "nat option"

text \<open>\<^verbatim>\<open>v || d\<close> for an optional number.\<close>

fun or_default :: "nat option \<Rightarrow> nat \<Rightarrow> nat" where
  "or_default None d = d"
| "or_default (Some n) d = (if n = 0 then d else n)"

subsection \<open>Candidate filter and structural order\<close>

definition exts :: "string list" where
  "exts = [''.js'', ''.ts'', ''.jsx'', ''.tsx'', ''.py'', ''.java'', ''.go'', ''.rs'', ''.c'', ''.cpp'',
           ''.cs'', ''.rb'', ''.php'', ''.json'', ''.md'', ''.html'', ''.css'']"

definition skipPatterns :: "string list" where
  "skipPatterns = [''node_modules/'', ''vendor/'', ''third_party/'', ''site-packages/'', ''dist/'',
                   ''build/'', ''coverage/'', ''.pytest_cache/'', ''.venv/'', ''__pycache__/'', ''.git/'']"

definition is_candidate :: "tree_entry \<Rightarrow> bool" where
  "is_candidate t = (t_type t = ''blob'' \<and> list_ex (\<lambda>e. endsWith (t_path t) e) exts)"

definition keep_candidate :: "rules \<Rightarrow> tree_entry \<Rightarrow> bool" where
  "keep_candidate rs t =
     (if list_ex (\<lambda>w. includes_str (t_path t) w) (whitelist rs) then True
      else if list_ex (\<lambda>b. includes_str (t_path t) b) (blacklist rs) then False
      else \<not> list_ex (\<lambda>p. includes_str (t_path t) p) skipPatterns)"

text \<open>
  \<^verbatim>\<open>(a.path.split('/').length - b.path.split('/').length) || ((b.size || 0) - (a.size || 0))\<close>
\<close>

definition cmp_structural :: "tree_entry \<Rightarrow> tree_entry \<Rightarrow> int" where
  "cmp_structural a b =
     (let d = int (depth (t_path a)) - int (depth (t_path b))
      in if d \<noteq> 0 then d else int (or_default (t_size b) 0) - int (or_default (t_size a) 0))"

definition filteredCandidates :: "rules \<Rightarrow> tree_entry list \<Rightarrow> tree_entry list" where
  "filteredCandidates rs tree =
     sort_cmp (\<lambda>a b. cmp_structural a b \<le> 0) (filter (keep_candidate rs) (filter is_candidate tree))"

subsection \<open>Lexical scoring\<close>

definition keywords_of :: "string \<Rightarrow> string list" where
  "keywords_of question = filter (\<lambda>w. length w > 3) (split_nonword (toLowerCase question))"

definition truncation_marker :: string where
  "truncation_marker = [nl, nl] @ ''...TRUNCATED...''"

definition truncate :: "string \<Rightarrow> string" where
  "truncate decoded =
     (if length decoded > 100000 then take 100000 decoded @ truncation_marker else decoded)"

text \<open>The two loops over the keywords that compute \<^verbatim>\<open>score\<close>.\<close>

definition lexical_score :: "string list \<Rightarrow> string \<Rightarrow> string \<Rightarrow> nat" where
  "lexical_score kws pathLower contentLower =
     (let path_score = foldl (\<lambda>acc k. if includes_str pathLower k then acc + 10 else acc) 0 kws
      in foldl (\<lambda>acc k. acc + min (count_matches k contentLower) 20) path_score kws)"

definition score_item :: "string list \<Rightarrow> tree_entry \<Rightarrow> string \<Rightarrow> scored_file" where
  "score_item kws item decoded =
     (let truncated_text = truncate decoded
      in \<lparr> sf_path = t_path item, sf_content = truncated_text, sf_bytes = byteLength truncated_text,
           sf_score = lexical_score kws (toLowerCase (t_path item)) (toLowerCase truncated_text),
           sf_originalItem = item, sf_semanticScore = None, sf_finalScore = None \<rparr>)"

text \<open>
  The loop over \<^verbatim>\<open>topCandidates\<close>. It returns \<^verbatim>\<open>scoredFiles\<close> and, as the record of its
  effect, the paths it requested from the file store, in order. \<open>res\<close> is \<^verbatim>\<open>result\<close>,
  which the loop reads in its two \<^verbatim>\<open>break\<close> tests and does not change. The test
  \<^verbatim>\<open>fileRes.data && fileRes.data.content\<close> is on the payload as sent: a candidate whose
  payload is not empty is scored, also when its decoded text is empty.
\<close>

fun score_loop :: "retrieval \<Rightarrow> nat \<Rightarrow> nat \<Rightarrow> string list \<Rightarrow> (string \<Rightarrow> file_response option) \<Rightarrow>
    tree_entry list \<Rightarrow> scored_file list \<times> string list" where
  "score_loop res maxFiles maxBytes kws fetch [] = ([], [])"
| "score_loop res maxFiles maxBytes kws fetch (item # items) =
     (if length (files res) \<ge> maxFiles then ([], [])
      else if totalBytes res \<ge> maxBytes then ([], [])
      else
        (let (scoredFiles, requested) = score_loop res maxFiles maxBytes kws fetch items
         in case fetch (t_path item) of
              None \<Rightarrow> (scoredFiles, t_path item # requested)
            | Some fileRes \<Rightarrow>
                if fr_content fileRes = [] then (scoredFiles, t_path item # requested)
                else (score_item kws item (fr_text fileRes) # scoredFiles, t_path item # requested)))"

subsection \<open>Ranking\<close>

text \<open>\<^verbatim>\<open>(b.score - a.score) || (a.path.split('/').length - b.path.split('/').length)\<close>\<close>

definition cmp_lexical :: "scored_file \<Rightarrow> scored_file \<Rightarrow> int" where
  "cmp_lexical a b =
     (let d = int (sf_score b) - int (sf_score a)
      in if d \<noteq> 0 then d else int (depth (sf_path a)) - int (depth (sf_path b)))"

text \<open>\<^verbatim>\<open>f.finalScore\<close> as a number: a missing property is \<^verbatim>\<open>undefined\<close>, which is \<^verbatim>\<open>NaN\<close>.\<close>

definition finalScore_of :: "scored_file \<Rightarrow> double" where
  "finalScore_of f = (case sf_finalScore f of None \<Rightarrow> NaN | Some d \<Rightarrow> d)"

text \<open>
  The sign of
  \<^verbatim>\<open>(b.finalScore - a.finalScore) || (a.path.split('/').length - b.path.split('/').length)\<close>.
  The difference of two doubles is positive when \<^verbatim>\<open>a.finalScore < b.finalScore\<close> and
  negative when \<^verbatim>\<open>b.finalScore < a.finalScore\<close>; otherwise it is \<^verbatim>\<open>0\<close> (equal values) or
  \<^verbatim>\<open>NaN\<close> (a \<^verbatim>\<open>NaN\<close> among the two, or twice the same infinity), both falsy, and the
  depths decide.
\<close>

definition cmp_semantic :: "scored_file \<Rightarrow> scored_file \<Rightarrow> int" where
  "cmp_semantic a b =
     (if double_less (finalScore_of a) (finalScore_of b) then 1
      else if double_less (finalScore_of b) (finalScore_of a) then - 1
      else int (depth (sf_path a)) - int (depth (sf_path b)))"

text \<open>
  \<^verbatim>\<open>f.semanticScore = sim; f.finalScore = (f.score || 0) * 0.2 + sim * 100\<close>, the value of the
  sum in doubles being \<open>blend (sf_score f) sim\<close>.
\<close>

definition annotate :: "(nat \<Rightarrow> double \<Rightarrow> double) \<Rightarrow> scored_file \<Rightarrow> double \<Rightarrow> scored_file" where
  "annotate blend f sim = f\<lparr> sf_semanticScore := Some sim, sf_finalScore := Some (blend (sf_score f) sim) \<rparr>"

text \<open>The \<^verbatim>\<open>forEach\<close> of the embedding block, as far as it gets.\<close>

fun annotate_all :: "(nat \<Rightarrow> double \<Rightarrow> double) \<Rightarrow> scored_file list \<Rightarrow> double list \<Rightarrow> scored_file list" where
  "annotate_all blend [] sims = []"
| "annotate_all blend (f # fs) [] = f # fs"
| "annotate_all blend (f # fs) (sim # sims) = annotate blend f sim # annotate_all blend fs sims"

definition lexical_order :: "scored_file list \<Rightarrow> scored_file list" where
  "lexical_order scoredFiles = sort_cmp (\<lambda>a b. cmp_lexical a b \<le> 0) scoredFiles"

text \<open>
  The re-ranking sort. When no final score is \<^verbatim>\<open>NaN\<close> the comparator orders the files by
  descending final score and then by depth. A final score that is \<^verbatim>\<open>NaN\<close> compares with
  every other by depth alone, and the comparator may then fail to be consistent on the
  files; the order is then the engine's.
\<close>

definition semantic_order :: "nat list \<Rightarrow> scored_file list \<Rightarrow> scored_file list" where
  "semantic_order choices scoredFiles =
     (if consistent_on (\<lambda>a b. cmp_semantic a b \<le> 0) scoredFiles
      then sort_cmp (\<lambda>a b. cmp_semantic a b \<le> 0) scoredFiles
      else arrange choices scoredFiles)"

text \<open>The three branches of lines 189 to 215.\<close>

definition rank_files :: "(nat \<Rightarrow> double \<Rightarrow> double) \<Rightarrow> nat list \<Rightarrow> string \<Rightarrow> bool \<Rightarrow> emb_outcome \<Rightarrow>
    scored_file list \<Rightarrow> scored_file list" where
  "rank_files blend choices question openai emb scoredFiles =
     (if question \<noteq> [] \<and> openai \<and> length scoredFiles > 0 then
        (case emb of
           EmbError \<Rightarrow> lexical_order scoredFiles
         | EmbSims sims \<Rightarrow>
             if length sims < length scoredFiles then lexical_order (annotate_all blend scoredFiles sims)
             else semantic_order choices (annotate_all blend scoredFiles sims))
      else lexical_order scoredFiles)"

subsection \<open>Budgeted selection\<close>

text \<open>\<^verbatim>\<open>f.finalScore || f.score\<close>\<close>

definition reported_score :: "scored_file \<Rightarrow> double" where
  "reported_score f =
     (case sf_finalScore f of
        Some v \<Rightarrow> if number_truthy v then v else Finite (of_nat (sf_score f))
      | None \<Rightarrow> Finite (of_nat (sf_score f)))"

definition admitted_entry :: "scored_file \<Rightarrow> ret_file" where
  "admitted_entry f =
     (let isTruncated = endsWith (sf_content f) truncation_marker
      in \<lparr> path = sf_path f,
           content = (if isTruncated then remove_first truncation_marker (sf_content f) else sf_content f),
           truncated = Some isTruncated, bytes = Some (sf_bytes f), score = Some (reported_score f) \<rparr>)"

text \<open>The loop that adds the top scored files until a limit is hit.\<close>

fun admit :: "nat \<Rightarrow> nat \<Rightarrow> scored_file list \<Rightarrow> retrieval \<Rightarrow> retrieval" where
  "admit maxFiles maxBytes [] res = res"
| "admit maxFiles maxBytes (f # fs) res =
     (if length (files res) \<ge> maxFiles then res
      else if totalBytes res + sf_bytes f > maxBytes then res
      else admit maxFiles maxBytes fs
             (res\<lparr> files := files res @ [admitted_entry f], totalBytes := totalBytes res + sf_bytes f \<rparr>))"

definition depFiles :: "string list" where
  "depFiles = [''package.json'', ''requirements.txt'', ''pyproject.toml'']"

text \<open>
  The loop that adds the dependency files that are not present yet. The test
  \<^verbatim>\<open>r.data && r.data.content\<close> is on the payload as sent.
\<close>

fun add_deps :: "nat \<Rightarrow> (string \<Rightarrow> file_response option) \<Rightarrow> string list \<Rightarrow> retrieval \<Rightarrow> retrieval" where
  "add_deps maxBytes fetch_dep [] res = res"
| "add_deps maxBytes fetch_dep (dep # deps) res =
     (if list_ex (\<lambda>ff. path ff = dep) (files res) then add_deps maxBytes fetch_dep deps res
      else (case fetch_dep dep of
              None \<Rightarrow> add_deps maxBytes fetch_dep deps res
            | Some r \<Rightarrow>
                if fr_content r = [] then add_deps maxBytes fetch_dep deps res
                else if totalBytes res + byteLength (fr_text r) \<le> maxBytes then
                  add_deps maxBytes fetch_dep deps
                    (res\<lparr> files := files res @ [\<lparr> path = dep, content = fr_text r, truncated = None,
                                                  bytes = None, score = None \<rparr>],
                          totalBytes := totalBytes res + byteLength (fr_text r) \<rparr>)
                else add_deps maxBytes fetch_dep deps res))"

subsection \<open>The whole call\<close>

definition topCandidates :: "env \<Rightarrow> tree_entry list \<Rightarrow> tree_entry list" where
  "topCandidates e tree = take 500 (filteredCandidates (env_rules e) tree)"

definition empty_result :: retrieval where
  "empty_result = \<lparr> files = [], totalBytes = 0 \<rparr>"

definition scoring :: "env \<Rightarrow> opts \<Rightarrow> string \<Rightarrow> tree_entry list \<Rightarrow> scored_file list \<times> string list" where
  "scoring e os question tree =
     score_loop empty_result (or_default (opt_maxFiles os) 50) (or_default (opt_maxBytes os) 200000)
       (keywords_of question) (env_fetch e) (topCandidates e tree)"

definition ranked :: "env \<Rightarrow> opts \<Rightarrow> string \<Rightarrow> tree_entry list \<Rightarrow> scored_file list" where
  "ranked e os question tree =
     rank_files (env_blend e) (env_choices e) question (env_openai e) (env_embed e)
       (fst (scoring e os question tree))"

definition fetchRepoTreeAndFiles :: "env \<Rightarrow> opts \<Rightarrow> string \<Rightarrow> retrieval" where
  "fetchRepoTreeAndFiles e os question =
     (let maxFiles = or_default (opt_maxFiles os) 50;
          maxBytes = or_default (opt_maxBytes os) 200000
      in case env_tree e of
           None \<Rightarrow> empty_result
         | Some tree \<Rightarrow>
             add_deps maxBytes (env_fetch_dep e) depFiles
               (admit maxFiles maxBytes (ranked e os question tree) empty_result))"

text \<open>The paths of candidates requested from the file store during the call.\<close>

definition requested_paths :: "env \<Rightarrow> opts \<Rightarrow> string \<Rightarrow> string list" where
  "requested_paths e os question =
     (case env_tree e of None \<Rightarrow> [] | Some tree \<Rightarrow> snd (scoring e os question tree))"

section \<open>Auxiliary notions\<close>

text \<open>A comparator result \<^verbatim>\<open>cmp(a, b) <= 0\<close> that is total and transitive.\<close>

definition total_preorder :: "('a \<Rightarrow> 'a \<Rightarrow> bool) \<Rightarrow> bool" where
  "total_preorder precedes = ((\<forall>a b. precedes a b \<or> precedes b a) \<and> (\<forall>a b c. precedes a b \<longrightarrow> precedes b c \<longrightarrow> precedes a c))"

text \<open>What one round of the scoring loop adds to \<^verbatim>\<open>scoredFiles\<close>, if anything.\<close>

definition scored_of :: "string list \<Rightarrow> (string \<Rightarrow> file_response option) \<Rightarrow> tree_entry \<Rightarrow> scored_file option" where
  "scored_of kws fetch item =
     (case fetch (t_path item) of None \<Rightarrow> None
      | Some r \<Rightarrow> if fr_content r = [] then None else Some (score_item kws item (fr_text r)))"

text \<open>Two entries of \<^verbatim>\<open>scoredFiles\<close> that differ at most in their semantic fields.\<close>

definition same_file :: "scored_file \<Rightarrow> scored_file \<Rightarrow> bool" where
  "same_file a b = (sf_path a = sf_path b \<and> sf_content a = sf_content b \<and> sf_bytes a = sf_bytes b
                    \<and> sf_score a = sf_score b \<and> sf_originalItem a = sf_originalItem b)"

text \<open>A text with no two consecutive line feeds, and a text that ends with a line feed.\<close>

fun noNN :: "string \<Rightarrow> bool" where
  "noNN (a # b # s) = (\<not> (a = nl \<and> b = nl) \<and> noNN (b # s))"
| "noNN s = True"

definition ends_nl :: "string \<Rightarrow> bool" where
  "ends_nl s = (s \<noteq> [] \<and> last s = nl)"

text \<open>
  The shape of the list a split returns, and of any part of it that a filter keeps: no
  element holds two consecutive line feeds; only the first may start with a line feed, only
  the last may end with one, and only the first and the last may be empty. \<open>good_tail\<close> is
  the shape of such a list from its second element on.
\<close>

fun good_tail :: "string list \<Rightarrow> bool" where
  "good_tail [] = True"
| "good_tail [p] = (noNN p \<and> \<not> starts_with p [nl])"
| "good_tail (p # q # ps) =
     (noNN p \<and> \<not> starts_with p [nl] \<and> \<not> ends_nl p \<and> p \<noteq> [] \<and> good_tail (q # ps))"

fun good :: "string list \<Rightarrow> bool" where
  "good [] = True"
| "good [p] = noNN p"
| "good (p # q # ps) = (noNN p \<and> \<not> ends_nl p \<and> good_tail (q # ps))"

text \<open>The two halves of \<^verbatim>\<open>trim\<close>, on a text and on the paragraphs of a join.\<close>

definition ltrim :: "string \<Rightarrow> string" where
  "ltrim s = dropWhile is_space s"

definition rtrim :: "string \<Rightarrow> string" where
  "rtrim s = rev (dropWhile is_space (rev s))"

fun ltrim_list :: "string list \<Rightarrow> string list" where
  "ltrim_list [] = []"
| "ltrim_list (p # ps) = (if list_all is_space p then ltrim_list ps else ltrim p # ps)"

fun rtrim_list :: "string list \<Rightarrow> string list" where
  "rtrim_list [] = []"
| "rtrim_list (p # ps) =
     (case rtrim_list ps of
        [] \<Rightarrow> (if list_all is_space p then [] else [rtrim p])
      | q # qs \<Rightarrow> p # q # qs)"

section \<open>Example inputs\<close>

text \<open>A retrieval result with the single file \<^verbatim>\<open>main.js\<close>.\<close>

definition ex_main_js :: ret_file where
  "ex_main_js = \<lparr> path = ''main.js'', content = ''console.log(1)'', truncated = Some False,
                    bytes = Some 14, score = Some (Finite 0) \<rparr>"

text \<open>A reply that cites a file that was not supplied, in its references, sources and prose.\<close>

definition ex_ungrounded :: model_answer where
  "ex_ungrounded = \<lparr> answer = JStr ''See nonexistent.js for details.'',
      references = JArr [JObj [(''path'', JStr ''nonexistent.js''), (''excerpt'', JStr ''...'')]],
      trace = JArr [], sources = JArr [JStr ''nonexistent.js''], missing = JUndefined,
      cannot_answer = JBool False, reason = JUndefined \<rparr>"

definition ex_ungrounded_result :: model_answer where
  "ex_ungrounded_result = \<lparr> answer = JStr absent_sentence,
      references = JArr [JObj [(''path'', JStr ''main.js''), (''excerpt'', JStr ''console.log(1)'')]],
      trace = JArr [], sources = JArr [JStr ''main.js''], missing = JArr [JStr ''nonexistent''],
      cannot_answer = JBool False, reason = JStr removed_reason \<rparr>"

text \<open>A reply that declares \<open>cannot_answer\<close> and still lists a supplied and an unknown source.\<close>

definition ex_declined :: model_answer where
  "ex_declined = \<lparr> answer = JStr ''Nothing relevant.'',
      references = JArr [JObj [(''path'', JStr ''main.js''), (''excerpt'', JStr ''console'')]],
      trace = JArr [JStr ''looked at main.js''], sources = JArr [JStr ''main.js'', JStr ''ghost.js''],
      missing = JArr [JStr ''auth''], cannot_answer = JBool True, reason = JNull \<rparr>"

definition ex_declined_result :: model_answer where
  "ex_declined_result = \<lparr> answer = JStr [], references = JArr [], trace = JArr [],
      sources = JArr [JStr ''main.js''], missing = JArr [], cannot_answer = JBool True,
      reason = JStr canonical_reason \<rparr>"

text \<open>
  The doubles of line 205 at the inputs of the examples below: \<^verbatim>\<open>0 * 0.2 + 0.5 * 100\<close> is
  \<^verbatim>\<open>50\<close> and \<^verbatim>\<open>0 * 0.2 + 0.25 * 100\<close> is \<^verbatim>\<open>25\<close>, both without rounding. No other
  input arises in the examples.
\<close>

definition ex_blend :: "nat \<Rightarrow> double \<Rightarrow> double" where
  "ex_blend s sim =
     (if s = 0 \<and> sim = Finite (1 / 2) then Finite 50
      else if s = 0 \<and> sim = Finite (1 / 4) then Finite 25
      else NaN)"

text \<open>A repository with one source file and a \<^verbatim>\<open>package.json\<close> at its root.\<close>

definition ex_tree_main :: "tree_entry list" where
  "ex_tree_main = [\<lparr> t_path = ''main.js'', t_type = ''blob'', t_size = Some 14 \<rparr>]"

definition ex_env_manifest :: env where
  "ex_env_manifest = \<lparr> env_tree = Some ex_tree_main,
      env_rules = \<lparr> whitelist = [], blacklist = [] \<rparr>,
      env_fetch = (\<lambda>p. if p = ''main.js''
                       then Some \<lparr> fr_content = ''Y29uc29sZS5sb2coMSk='', fr_text = ''console.log(1)'' \<rparr>
                       else None),
      env_fetch_dep = (\<lambda>p. if p = ''package.json''
                           then Some \<lparr> fr_content = ''e30='', fr_text = ''{}'' \<rparr> else None),
      env_openai = False, env_embed = EmbError, env_blend = ex_blend, env_choices = [] \<rparr>"

text \<open>The caller's limit of one file, with the default byte limit.\<close>

definition ex_one_file :: opts where
  "ex_one_file = \<lparr> opt_maxFiles = Some 1, opt_maxBytes = None \<rparr>"

text \<open>A call without options.\<close>

definition ex_defaults :: opts where
  "ex_defaults = \<lparr> opt_maxFiles = None, opt_maxBytes = None \<rparr>"

text \<open>Two scored files of equal score, at depths 2 and 1, and a repository that yields them.\<close>

definition ex_deep :: scored_file where
  "ex_deep = \<lparr> sf_path = ''src/deep.js'', sf_content = ''0123456789'', sf_bytes = 10, sf_score = 0,
                sf_originalItem = \<lparr> t_path = ''src/deep.js'', t_type = ''blob'', t_size = Some 10 \<rparr>,
                sf_semanticScore = None, sf_finalScore = None \<rparr>"

definition ex_top :: scored_file where
  "ex_top = \<lparr> sf_path = ''top.js'', sf_content = ''0123456789'', sf_bytes = 10, sf_score = 0,
               sf_originalItem = \<lparr> t_path = ''top.js'', t_type = ''blob'', t_size = Some 10 \<rparr>,
               sf_semanticScore = None, sf_finalScore = None \<rparr>"

definition ex_tree_two :: "tree_entry list" where
  "ex_tree_two = [\<lparr> t_path = ''src/deep.js'', t_type = ''blob'', t_size = Some 10 \<rparr>,
                  \<lparr> t_path = ''top.js'', t_type = ''blob'', t_size = Some 10 \<rparr>]"

definition ex_env_two :: env where
  "ex_env_two = \<lparr> env_tree = Some ex_tree_two,
      env_rules = \<lparr> whitelist = [], blacklist = [] \<rparr>,
      env_fetch = (\<lambda>p. if p = ''src/deep.js'' \<or> p = ''top.js''
                       then Some \<lparr> fr_content = ''MDEyMzQ1Njc4OQ=='', fr_text = ''0123456789'' \<rparr>
                       else None),
      env_fetch_dep = (\<lambda>p. None),
      env_openai = False, env_embed = EmbError, env_blend = ex_blend, env_choices = [] \<rparr>"

text \<open>
  The same repository with a client whose embeddings give the cosine \<^verbatim>\<open>0.25\<close> for
  \<^verbatim>\<open>top.js\<close> and \<^verbatim>\<open>0.5\<close> for \<^verbatim>\<open>src/deep.js\<close> (the scored files are in the order of the
  window, the shallower first), a question without a keyword, and the two files as the
  re-ranker leaves them.
\<close>

definition ex_env_rerank :: env where
  "ex_env_rerank = \<lparr> env_tree = Some ex_tree_two,
      env_rules = \<lparr> whitelist = [], blacklist = [] \<rparr>,
      env_fetch = (\<lambda>p. if p = ''src/deep.js'' \<or> p = ''top.js''
                       then Some \<lparr> fr_content = ''MDEyMzQ1Njc4OQ=='', fr_text = ''0123456789'' \<rparr>
                       else None),
      env_fetch_dep = (\<lambda>p. None),
      env_openai = True, env_embed = EmbSims [Finite (1 / 4), Finite (1 / 2)],
      env_blend = ex_blend, env_choices = [] \<rparr>"

definition ex_why :: string where
  "ex_why = ''why''"

definition ex_deep_ranked :: scored_file where
  "ex_deep_ranked = \<lparr> sf_path = ''src/deep.js'', sf_content = ''0123456789'', sf_bytes = 10, sf_score = 0,
                sf_originalItem = \<lparr> t_path = ''src/deep.js'', t_type = ''blob'', t_size = Some 10 \<rparr>,
                sf_semanticScore = Some (Finite (1 / 2)), sf_finalScore = Some (Finite 50) \<rparr>"

definition ex_top_ranked :: scored_file where
  "ex_top_ranked = \<lparr> sf_path = ''top.js'', sf_content = ''0123456789'', sf_bytes = 10, sf_score = 0,
               sf_originalItem = \<lparr> t_path = ''top.js'', t_type = ''blob'', t_size = Some 10 \<rparr>,
               sf_semanticScore = Some (Finite (1 / 4)), sf_finalScore = Some (Finite 25) \<rparr>"

definition ex_deep_entry :: ret_file where
  "ex_deep_entry = \<lparr> path = ''src/deep.js'', content = ''0123456789'', truncated = Some False,
                     bytes = Some 10, score = Some (Finite 50) \<rparr>"

text \<open>A limit of one file and of five bytes.\<close>

definition ex_tiny_budget :: opts where
  "ex_tiny_budget = \<lparr> opt_maxFiles = Some 1, opt_maxBytes = Some 5 \<rparr>"

text \<open>
  A repository with a file whose text repeats one keyword 25 times, holds a second keyword
  twice and a third in the run \<^verbatim>\<open>hahahaha\<close>, where the expression finds it twice, and a
  file whose payload, a line break, decodes to the empty text. \<open>ex_auth_lower\<close> is the
  first text in lower case.
\<close>

definition ex_auth_text :: string where
  "ex_auth_text = ''AUTH AUTH AUTH AUTH AUTH AUTH AUTH AUTH AUTH AUTH AUTH AUTH AUTH AUTH AUTH AUTH AUTH AUTH AUTH AUTH AUTH AUTH AUTH AUTH AUTH Token token hahahaha''"

definition ex_auth_lower :: string where
  "ex_auth_lower = ''auth auth auth auth auth auth auth auth auth auth auth auth auth auth auth auth auth auth auth auth auth auth auth auth auth token token hahahaha''"

definition ex_item_auth :: tree_entry where
  "ex_item_auth = \<lparr> t_path = ''Auth/Token.js'', t_type = ''blob'', t_size = Some 145 \<rparr>"

definition ex_item_empty :: tree_entry where
  "ex_item_empty = \<lparr> t_path = ''empty.md'', t_type = ''blob'', t_size = Some 0 \<rparr>"

definition ex_tree_auth :: "tree_entry list" where
  "ex_tree_auth = [ex_item_auth, ex_item_empty]"

definition ex_response_auth :: file_response where
  "ex_response_auth = \<lparr> fr_content =
      ''QVVUSCBBVVRIIEFVVEggQVVUSCBBVVRIIEFVVEggQVVUSCBBVVRIIEFVVEggQVVUSCBBVVRIIEFVVEggQVVUSCBBVVRIIEFVVEggQVVUSCBBVVRIIEFVVEggQVVUSCBBVVRIIEFVVEggQVVUSCBBVVRIIEFVVEggQVVUSCBUb2tlbiB0b2tlbiBoYWhhaGFoYQ=='', fr_text = ex_auth_text \<rparr>"

definition ex_response_empty :: file_response where
  "ex_response_empty = \<lparr> fr_content = [nl], fr_text = [] \<rparr>"

definition ex_env_auth :: env where
  "ex_env_auth = \<lparr> env_tree = Some ex_tree_auth,
      env_rules = \<lparr> whitelist = [], blacklist = [] \<rparr>,
      env_fetch = (\<lambda>p. if p = ''Auth/Token.js'' then Some ex_response_auth
                       else if p = ''empty.md'' then Some ex_response_empty else None),
      env_fetch_dep = (\<lambda>p. None),
      env_openai = False, env_embed = EmbError, env_blend = ex_blend, env_choices = [] \<rparr>"

definition ex_auth_question :: string where
  "ex_auth_question = ''Where is the AUTH token, haha?''"

text \<open>An answer of two paragraphs, the second about a file that was not supplied.\<close>

definition ex_two_paragraphs :: model_answer where
  "ex_two_paragraphs = \<lparr> answer = JStr (''Entry is main.js.'' @ [nl, nl] @ ''See ghost.py too.''),
      references = JArr [], trace = JArr [], sources = JArr [JStr ''main.js''], missing = JArr [],
      cannot_answer = JBool False, reason = JStr [] \<rparr>"

definition ex_scrubbed :: model_answer where
  "ex_scrubbed = \<lparr> answer = JStr ''Entry is main.js.'',
      references = JArr [], trace = JArr [], sources = JArr [JStr ''main.js''],
      missing = JArr [JStr ''ghost''], cannot_answer = JBool False, reason = JStr removed_reason \<rparr>"

section \<open>Properties of the validator\<close>

subsection \<open>Grounding of sources and references\<close>

lemma find_source_grounded:
  "p \<in> availablePaths fs \<Longrightarrow> \<exists>f. find_source fs (JStr p) = Some f \<and> path f = p"
  unfolding find_source_def availablePaths_def
  by (induction fs) auto

lemma find_source_path:
  "find_source fs s = Some f \<Longrightarrow> path f \<in> availablePaths fs"
  unfolding find_source_def availablePaths_def
  by (auto simp: find_Some_iff)

lemma source_ok_iff: "source_ok fs e \<longleftrightarrow> (\<exists>p. e = JStr p \<and> p \<in> availablePaths fs)"
  by (cases e) auto

lemma reference_ok_iff:
  "reference_ok fs e \<longleftrightarrow> truthy e \<and> (\<exists>p. get_path e = JStr p \<and> p \<in> availablePaths fs)"
  unfolding reference_ok_def by (auto split: json.splits)

lemma grounded_sources_eq:
  "sources (grounded fs j) =
     (if filter (source_ok fs) (as_array (sources j)) = [] \<and> fs \<noteq> [] \<and> cannot_answer j \<noteq> JBool True
      then JArr (map JStr (take 5 (allFetched fs)))
      else JArr (filter (source_ok fs) (as_array (sources j))))"
  unfolding grounded_def backfill_references_def backfill_sources_def ground_filter_def normalize_def
  by (auto split: option.splits simp: allFetched_def min_def)

lemma grounded_sources_ok: "e \<in> set (as_array (sources (grounded fs j))) \<Longrightarrow> source_ok fs e"
  unfolding grounded_sources_eq
  by (auto simp: allFetched_def availablePaths_def split: if_splits dest!: in_set_takeD)

lemma grounded_frame [simp]:
  "answer (grounded fs j) = answer j"
  "cannot_answer (grounded fs j) = cannot_answer j"
  "reason (grounded fs j) = reason j"
  "trace (grounded fs j) = trace j"
  "missing (grounded fs j) = JArr (as_array (missing j))"
  unfolding grounded_def backfill_references_def backfill_sources_def ground_filter_def normalize_def
  by (auto split: option.splits)

lemma backfill_sources_references [simp]: "references (backfill_sources fs j) = references j"
  unfolding backfill_sources_def by simp

lemma grounded_references_ok:
  assumes "e \<in> set (as_array (references (grounded fs j)))"
  shows "reference_ok fs e"
proof -
  let ?g = "backfill_sources fs (ground_filter fs (normalize j))"
  have base: "\<forall>e \<in> set (as_array (references ?g)). reference_ok fs e"
    by (simp add: ground_filter_def normalize_def)
  show ?thesis
    using assms base unfolding grounded_def backfill_references_def
    by (auto split: option.splits if_splits simp: reference_ok_iff dest: find_source_path)
qed

text \<open>
  With a file supplied and no declared \<open>cannot_answer\<close>, the two back-fill steps always leave
  a reference: the first source is a supplied path, so the lookup of its file succeeds.
\<close>

lemma grounded_references_nonempty:
  assumes "cannot_answer j \<noteq> JBool True" "fs \<noteq> []"
  shows "as_array (references (grounded fs j)) \<noteq> []"
proof -
  let ?g = "backfill_sources fs (ground_filter fs (normalize j))"
  have sg: "sources ?g = sources (grounded fs j)"
    unfolding grounded_def backfill_references_def by (auto split: option.splits)
  have ne: "as_array (sources ?g) \<noteq> []"
    unfolding sg grounded_sources_eq using assms by (auto simp: allFetched_def)
  then obtain e es where e: "as_array (sources ?g) = e # es"
    by (cases "as_array (sources ?g)") auto
  have "source_ok fs e"
    using grounded_sources_ok[of e fs j] e unfolding sg[symmetric] by simp
  then obtain p where p: "e = JStr p" "p \<in> availablePaths fs"
    by (auto simp: source_ok_iff)
  then obtain f where f: "find_source fs e = Some f"
    using find_source_grounded by blast
  have c: "cannot_answer ?g \<noteq> JBool True"
    using assms(1) by (simp add: backfill_sources_def ground_filter_def normalize_def)
  show ?thesis
    unfolding grounded_def backfill_references_def using e f c by simp
qed

lemma grounded_sources_arr: "\<exists>ss. sources (grounded fs j) = JArr ss"
  by (simp add: grounded_sources_eq)

lemma grounded_references_arr: "\<exists>rs. references (grounded fs j) = JArr rs"
  unfolding grounded_def backfill_references_def backfill_sources_def ground_filter_def normalize_def
  by (auto split: option.splits)

subsection \<open>What the scrub leaves alone\<close>

lemma scrub_frame [simp]:
  "sources (scrub fs j) = sources j"
  "references (scrub fs j) = references j"
  "trace (scrub fs j) = trace j"
  unfolding scrub_def by (simp_all add: Let_def)

lemma scrub_cannot_answer:
  "cannot_answer j = JBool False \<Longrightarrow> cannot_answer (scrub fs j) = JBool False"
  unfolding scrub_def by (simp add: Let_def)

lemma scrub_reason:
  "reason (scrub fs j) = reason j \<or> (\<not> truthy (reason j) \<and> reason (scrub fs j) = JStr removed_reason)"
  unfolding scrub_def by (simp add: Let_def reason_or_def)

subsection \<open>The two ways the validator ends\<close>

lemma answer_blank_Some_True:
  "answer_blank a = Some True \<longleftrightarrow> (\<not> truthy a \<or> (\<exists>s. a = JStr s \<and> trim s = []))"
  by (cases a) (auto simp: trim_def)

lemma validateAnswer_cases:
  assumes "validateAnswer fs j = Result r"
  shows "((cannot_answer j = JBool True
            \<or> (as_array (references (grounded fs j)) = [] \<and> answer_blank (answer j) = Some True))
          \<and> r = cannot_answer_result (grounded fs j))
       \<or> (cannot_answer j \<noteq> JBool True
          \<and> \<not> (as_array (references (grounded fs j)) = [] \<and> answer_blank (answer j) = Some True)
          \<and> r = scrub fs ((grounded fs j)\<lparr> cannot_answer := JBool False, reason := reason_or [] (reason j) \<rparr>))"
  using assms unfolding validateAnswer_def resolve_def
  by (auto split: if_splits option.splits bool.splits sum.splits)

lemma terminal_iff:
  assumes "validateAnswer fs j = Result r"
  shows "cannot_answer r = JBool True \<longleftrightarrow>
         (cannot_answer j = JBool True
          \<or> (as_array (references (grounded fs j)) = [] \<and> answer_blank (answer j) = Some True))"
proof -
  let ?g = "(grounded fs j)\<lparr> cannot_answer := JBool False, reason := reason_or [] (reason j) \<rparr>"
  have "cannot_answer (scrub fs ?g) = JBool False"
    by (rule scrub_cannot_answer) simp
  then show ?thesis
    using validateAnswer_cases[OF assms] by (auto simp: cannot_answer_result_def)
qed

lemma validateAnswer_sources:
  assumes "validateAnswer fs j = Result r"
  shows "sources r = sources (grounded fs j)"
  using validateAnswer_cases[OF assms] by (auto simp: cannot_answer_result_def)

lemma validateAnswer_references:
  assumes "validateAnswer fs j = Result r"
  shows "references r = references (grounded fs j) \<or> references r = JArr []"
  using validateAnswer_cases[OF assms] by (auto simp: cannot_answer_result_def)

lemma grounded_sources_terminal:
  assumes "cannot_answer j = JBool True \<or> as_array (references (grounded fs j)) = []"
  shows "sources (grounded fs j) = JArr (filter (source_ok fs) (as_array (sources j)))"
proof (cases "cannot_answer j = JBool True")
  case True
  then show ?thesis by (simp add: grounded_sources_eq)
next
  case False
  with assms have e: "as_array (references (grounded fs j)) = []" by simp
  have "fs = []" using grounded_references_nonempty[OF False, of fs] e by blast
  then show ?thesis by (simp add: grounded_sources_eq)
qed

subsection \<open>Evaluation of the examples\<close>

lemmas validator_defs =
  validateAnswer_def resolve_def grounded_def backfill_references_def backfill_sources_def
  ground_filter_def normalize_def availablePaths_def allFetched_def reference_ok_def find_source_def
  cannot_answer_result_def reason_or_def

lemmas scrub_defs =
  scrub_def unknown_files_def Let_def match_all_def is_cls_def ext_at_def file_exts_def uniq_def keep_para_def
  trim_def is_space_def code_unit_def nl_def strip_ext_def add_missing_def reason_or_def

lemma ex_ungrounded_eval: "validateAnswer [ex_main_js] ex_ungrounded = Result ex_ungrounded_result"
  by (simp add: validator_defs scrub_defs ex_main_js_def ex_ungrounded_def ex_ungrounded_result_def)

lemma ex_declined_eval: "validateAnswer [ex_main_js] ex_declined = Result ex_declined_result"
  by (simp add: validator_defs ex_main_js_def ex_declined_def ex_declined_result_def)

subsection \<open>The claims\<close>

text \<open>
  C1. Grounding invariant: in every validated answer, \<open>sources\<close> is an array of strings and
  \<open>references\<close> an array of values with a string \<open>path\<close>, and each of these paths is the
  path of one of the files supplied to the validator. The back-filled entries are covered,
  since the statement is about the final result.
\<close>

theorem grounding_invariant:
  assumes "validateAnswer fs j = Result r"
  shows "(\<exists>ss. sources r = JArr ss \<and> (\<forall>e \<in> set ss. \<exists>p. e = JStr p \<and> p \<in> set (map path fs)))
       \<and> (\<exists>rs. references r = JArr rs
              \<and> (\<forall>e \<in> set rs. \<exists>p. get_path e = JStr p \<and> p \<in> set (map path fs)))"
proof
  obtain ss where ss: "sources (grounded fs j) = JArr ss"
    using grounded_sources_arr by blast
  have "\<forall>e \<in> set ss. source_ok fs e"
    using grounded_sources_ok[of _ fs j] ss by simp
  then show "\<exists>ss. sources r = JArr ss \<and> (\<forall>e \<in> set ss. \<exists>p. e = JStr p \<and> p \<in> set (map path fs))"
    using validateAnswer_sources[OF assms] ss by (auto simp: source_ok_iff availablePaths_def)
next
  obtain rs where rs: "references (grounded fs j) = JArr rs"
    using grounded_references_arr by blast
  have "\<forall>e \<in> set rs. reference_ok fs e"
    using grounded_references_ok[of _ fs j] rs by simp
  then have ok: "\<forall>e \<in> set rs. \<exists>p. get_path e = JStr p \<and> p \<in> set (map path fs)"
    by (auto simp: reference_ok_iff availablePaths_def)
  from validateAnswer_references[OF assms]
  show "\<exists>rs. references r = JArr rs
          \<and> (\<forall>e \<in> set rs. \<exists>p. get_path e = JStr p \<and> p \<in> set (map path fs))"
  proof
    assume "references r = references (grounded fs j)"
    then show ?thesis using rs ok by auto
  next
    assume "references r = JArr []"
    then show ?thesis by simp
  qed
qed

theorem grounding_invariant_witness:
  "validateAnswer [ex_main_js] ex_ungrounded = Result ex_ungrounded_result
   \<and> sources ex_ungrounded_result = JArr [JStr ''main.js'']
   \<and> references ex_ungrounded_result
       = JArr [JObj [(''path'', JStr ''main.js''), (''excerpt'', JStr ''console.log(1)'')]]
   \<and> set (map path [ex_main_js]) = {''main.js''}"
proof -
  have a: "sources ex_ungrounded_result = JArr [JStr ''main.js'']"
    by (simp add: ex_ungrounded_result_def)
  have b: "references ex_ungrounded_result
       = JArr [JObj [(''path'', JStr ''main.js''), (''excerpt'', JStr ''console.log(1)'')]]"
    by (simp add: ex_ungrounded_result_def)
  have c: "set (map path [ex_main_js]) = {''main.js''}"
    by (simp add: ex_main_js_def)
  show ?thesis
    using grounding_invariant[OF ex_ungrounded_eval] ex_ungrounded_eval a b c by blast
qed

text \<open>
  C3. When retrieval yields zero files, the handler sends the canonical result whatever the
  model client and its reply are: empty answer, references, trace, sources and missing,
  \<open>cannot_answer = true\<close>, and the fixed, non-empty reason.
\<close>

theorem empty_retrieval_canonical:
  "walkthrough \<lparr> files = [], totalBytes = n \<rparr> openai reply =
     Result \<lparr> answer = JStr [], references = JArr [], trace = JArr [], sources = JArr [],
              missing = JArr [], cannot_answer = JBool True, reason = JStr no_files_reason \<rparr>
   \<and> no_files_reason \<noteq> []
   \<and> includes_str no_files_reason ''rate limit''
   \<and> includes_str no_files_reason ''private repo''
   \<and> includes_str no_files_reason ''invalid repository''"
  by (simp add: walkthrough_def no_files_result_def no_files_reason_def)

text \<open>
  C4. For every validated answer, the final \<open>cannot_answer\<close> is \<open>true\<close> exactly when the model
  set it to \<open>true\<close>, or the references are empty after the filter and the two back-fill
  steps and the answer is empty (falsy) or white space only. In that case answer,
  references, trace and missing are empty and the reason is non-empty, the canonical one
  when the model gave none. Otherwise \<open>cannot_answer\<close> is \<open>false\<close> and the reason is present:
  a non-empty value or the empty string.
\<close>

theorem cannot_answer_resolution:
  assumes "validateAnswer fs j = Result r"
  shows "(cannot_answer r = JBool True \<longleftrightarrow>
            cannot_answer j = JBool True
            \<or> (as_array (references (grounded fs j)) = []
                \<and> (\<not> truthy (answer j) \<or> (\<exists>s. answer j = JStr s \<and> trim s = []))))
       \<and> (cannot_answer r = JBool True \<longrightarrow>
            answer r = JStr [] \<and> references r = JArr [] \<and> trace r = JArr [] \<and> missing r = JArr []
            \<and> truthy (reason r) \<and> (\<not> truthy (reason j) \<longrightarrow> reason r = JStr canonical_reason))
       \<and> (cannot_answer r \<noteq> JBool True \<longrightarrow>
            cannot_answer r = JBool False \<and> (truthy (reason r) \<or> reason r = JStr []))"
proof (intro conjI)
  show "cannot_answer r = JBool True \<longleftrightarrow>
            cannot_answer j = JBool True
            \<or> (as_array (references (grounded fs j)) = []
                \<and> (\<not> truthy (answer j) \<or> (\<exists>s. answer j = JStr s \<and> trim s = [])))"
    using terminal_iff[OF assms] by (simp add: answer_blank_Some_True)
next
  show "cannot_answer r = JBool True \<longrightarrow>
            answer r = JStr [] \<and> references r = JArr [] \<and> trace r = JArr [] \<and> missing r = JArr []
            \<and> truthy (reason r) \<and> (\<not> truthy (reason j) \<longrightarrow> reason r = JStr canonical_reason)"
  proof
    assume t: "cannot_answer r = JBool True"
    then have "r = cannot_answer_result (grounded fs j)"
      using validateAnswer_cases[OF assms] terminal_iff[OF assms] by blast
    then show "answer r = JStr [] \<and> references r = JArr [] \<and> trace r = JArr [] \<and> missing r = JArr []
            \<and> truthy (reason r) \<and> (\<not> truthy (reason j) \<longrightarrow> reason r = JStr canonical_reason)"
      by (simp add: cannot_answer_result_def reason_or_def canonical_reason_def)
  qed
next
  show "cannot_answer r \<noteq> JBool True \<longrightarrow>
            cannot_answer r = JBool False \<and> (truthy (reason r) \<or> reason r = JStr [])"
  proof
    assume t: "cannot_answer r \<noteq> JBool True"
    let ?g = "(grounded fs j)\<lparr> cannot_answer := JBool False, reason := reason_or [] (reason j) \<rparr>"
    have r: "r = scrub fs ?g"
      using validateAnswer_cases[OF assms] terminal_iff[OF assms] t by blast
    have c: "cannot_answer r = JBool False"
      unfolding r by (rule scrub_cannot_answer) simp
    have "truthy (reason ?g) \<or> reason ?g = JStr []"
      by (simp add: reason_or_def)
    then have "truthy (reason r) \<or> reason r = JStr []"
      using scrub_reason[of fs ?g] unfolding r by (auto simp: removed_reason_def)
    with c show "cannot_answer r = JBool False \<and> (truthy (reason r) \<or> reason r = JStr [])"
      by simp
  qed
qed

theorem cannot_answer_resolution_witness:
  "validateAnswer [ex_main_js] ex_declined = Result ex_declined_result
   \<and> cannot_answer ex_declined = JBool True
   \<and> cannot_answer ex_declined_result = JBool True
   \<and> answer ex_declined_result = JStr [] \<and> references ex_declined_result = JArr []
   \<and> trace ex_declined_result = JArr [] \<and> missing ex_declined_result = JArr []
   \<and> reason ex_declined = JNull \<and> reason ex_declined_result = JStr canonical_reason
   \<and> validateAnswer [ex_main_js] ex_ungrounded = Result ex_ungrounded_result
   \<and> cannot_answer ex_ungrounded = JBool False
   \<and> cannot_answer ex_ungrounded_result = JBool False
   \<and> truthy (reason ex_ungrounded_result)"
proof -
  have d: "cannot_answer ex_declined = JBool True" "reason ex_declined = JNull"
    by (simp_all add: ex_declined_def)
  have u: "cannot_answer ex_ungrounded = JBool False"
    by (simp add: ex_ungrounded_def)
  have ur: "cannot_answer ex_ungrounded_result = JBool False" "truthy (reason ex_ungrounded_result)"
    by (simp_all add: ex_ungrounded_result_def removed_reason_def)
  have dt: "cannot_answer ex_declined_result = JBool True"
    using cannot_answer_resolution[OF ex_declined_eval] d by blast
  have dr: "answer ex_declined_result = JStr [] \<and> references ex_declined_result = JArr []
      \<and> trace ex_declined_result = JArr [] \<and> missing ex_declined_result = JArr []
      \<and> reason ex_declined_result = JStr canonical_reason"
    using cannot_answer_resolution[OF ex_declined_eval] dt d by simp
  show ?thesis
    using ex_declined_eval ex_ungrounded_eval d u ur dt dr by blast
qed

text \<open>
  C10. When the validator ends with \<open>cannot_answer = true\<close>, answer, references, trace and
  missing are empty, and \<open>sources\<close> is exactly the model's sources that passed the grounding
  filter: the terminal branch does not clear it.
\<close>

theorem cannot_answer_keeps_sources:
  assumes "validateAnswer fs j = Result r" and "cannot_answer r = JBool True"
  shows "sources r = JArr (filter (source_ok fs) (as_array (sources j)))
       \<and> answer r = JStr [] \<and> references r = JArr [] \<and> trace r = JArr [] \<and> missing r = JArr []"
proof -
  have c: "cannot_answer j = JBool True
           \<or> (as_array (references (grounded fs j)) = [] \<and> answer_blank (answer j) = Some True)"
    using terminal_iff[OF assms(1)] assms(2) by simp
  then have r: "r = cannot_answer_result (grounded fs j)"
    using validateAnswer_cases[OF assms(1)] by blast
  have "sources r = sources (grounded fs j)"
    unfolding r by (simp add: cannot_answer_result_def)
  also have "\<dots> = JArr (filter (source_ok fs) (as_array (sources j)))"
    using c by (intro grounded_sources_terminal) blast
  finally show ?thesis
    unfolding r by (simp add: cannot_answer_result_def)
qed

theorem cannot_answer_keeps_sources_witness:
  "validateAnswer [ex_main_js] ex_declined = Result ex_declined_result
   \<and> cannot_answer ex_declined_result = JBool True
   \<and> sources ex_declined = JArr [JStr ''main.js'', JStr ''ghost.js'']
   \<and> filter (source_ok [ex_main_js]) [JStr ''main.js'', JStr ''ghost.js''] = [JStr ''main.js'']
   \<and> sources ex_declined_result = JArr [JStr ''main.js'']"
proof -
  have t: "cannot_answer ex_declined_result = JBool True"
    by (simp add: ex_declined_result_def)
  have s: "sources ex_declined = JArr [JStr ''main.js'', JStr ''ghost.js'']"
    by (simp add: ex_declined_def)
  have f: "filter (source_ok [ex_main_js]) [JStr ''main.js'', JStr ''ghost.js''] = [JStr ''main.js'']"
    by (simp add: ex_main_js_def availablePaths_def)
  have "sources ex_declined_result = JArr (filter (source_ok [ex_main_js]) (as_array (sources ex_declined)))"
    using cannot_answer_keeps_sources[OF ex_declined_eval t] by blast
  then have r: "sources ex_declined_result = JArr [JStr ''main.js'']"
    unfolding s using f by simp
  show ?thesis
    using ex_declined_eval t s f r by blast
qed

section \<open>Properties of file selection\<close>

subsection \<open>Substrings\<close>

lemma starts_with_prefix: "starts_with s u \<longleftrightarrow> prefix u s"
  by (induction s u rule: starts_with.induct) auto

lemma includes_str_sublist: "includes_str s u \<longleftrightarrow> sublist u s"
  by (induction s) (auto simp: starts_with_prefix sublist_Cons_right)

lemma includes_str_mono: "sublist p' p \<Longrightarrow> includes_str p' u \<Longrightarrow> includes_str p u"
  unfolding includes_str_sublist by (erule (1) sublist_order.order.trans[rotated])

subsection \<open>The stable sort\<close>

lemma set_insert_sorted [simp]: "set (insert_sorted precedes x ys) = insert x (set ys)"
  by (induction ys) auto

lemma length_insert_sorted [simp]: "length (insert_sorted precedes x ys) = Suc (length ys)"
  by (induction ys) auto

lemma set_sort_cmp [simp]: "set (sort_cmp precedes xs) = set xs"
  unfolding sort_cmp_def by (induction xs) auto

lemma length_sort_cmp [simp]: "length (sort_cmp precedes xs) = length xs"
  unfolding sort_cmp_def by (induction xs) auto

lemma sort_cmp_Cons: "sort_cmp precedes (x # xs) = insert_sorted precedes x (sort_cmp precedes xs)"
  by (simp add: sort_cmp_def)

lemma sort_cmp_Nil [simp]: "sort_cmp precedes [] = []"
  by (simp add: sort_cmp_def)

lemma sorted_insert_sorted:
  assumes "total_preorder precedes" "sorted_wrt precedes ys"
  shows "sorted_wrt precedes (insert_sorted precedes x ys)"
  using assms(2)
proof (induction ys)
  case Nil
  then show ?case by simp
next
  case (Cons y ys)
  show ?case
  proof (cases "precedes x y")
    case True
    then have "\<forall>z \<in> set ys. precedes x z"
      using Cons.prems assms(1) unfolding total_preorder_def by (metis sorted_wrt.simps(2))
    with True Cons.prems show ?thesis by simp
  next
    case False
    then have "precedes y x" using assms(1) unfolding total_preorder_def by blast
    with False Cons show ?thesis by auto
  qed
qed

lemma sorted_sort_cmp:
  "total_preorder precedes \<Longrightarrow> sorted_wrt precedes (sort_cmp precedes xs)"
  by (induction xs) (auto simp: sort_cmp_Cons sorted_insert_sorted)

lemma total_preorder_lexical: "total_preorder (\<lambda>a b. cmp_lexical a b \<le> 0)"
  unfolding total_preorder_def cmp_lexical_def Let_def by auto

lemma total_preorder_structural: "total_preorder (\<lambda>a b. cmp_structural a b \<le> 0)"
  unfolding total_preorder_def cmp_structural_def Let_def by auto

text \<open>The same for a comparator that orders the elements of a set.\<close>

lemma sorted_insert_sorted_on:
  assumes tot: "\<And>a b. a \<in> S \<Longrightarrow> b \<in> S \<Longrightarrow> precedes a b \<or> precedes b a"
    and tr: "\<And>a b c. a \<in> S \<Longrightarrow> b \<in> S \<Longrightarrow> c \<in> S \<Longrightarrow> precedes a b \<Longrightarrow> precedes b c \<Longrightarrow> precedes a c"
    and x: "x \<in> S" and "set ys \<subseteq> S" "sorted_wrt precedes ys"
  shows "sorted_wrt precedes (insert_sorted precedes x ys)"
  using assms(4,5)
proof (induction ys)
  case Nil
  then show ?case by simp
next
  case (Cons y ys)
  show ?case
  proof (cases "precedes x y")
    case True
    have "precedes x z" if z: "z \<in> set ys" for z
    proof -
      have "precedes y z" using Cons.prems(2) z by simp
      then show ?thesis using tr[of x y z] True x Cons.prems(1) z by auto
    qed
    with True Cons.prems show ?thesis by simp
  next
    case False
    then have "precedes y x" using tot[of x y] x Cons.prems(1) by auto
    with False Cons show ?thesis by auto
  qed
qed

lemma sorted_sort_cmp_on:
  assumes tot: "\<And>a b. a \<in> S \<Longrightarrow> b \<in> S \<Longrightarrow> precedes a b \<or> precedes b a"
    and tr: "\<And>a b c. a \<in> S \<Longrightarrow> b \<in> S \<Longrightarrow> c \<in> S \<Longrightarrow> precedes a b \<Longrightarrow> precedes b c \<Longrightarrow> precedes a c"
    and "set xs \<subseteq> S"
  shows "sorted_wrt precedes (sort_cmp precedes xs)"
  using assms(3)
proof (induction xs)
  case Nil
  show ?case by simp
next
  case (Cons x xs)
  have h: "x \<in> S" "set (sort_cmp precedes xs) \<subseteq> S" "sorted_wrt precedes (sort_cmp precedes xs)"
    using Cons by simp_all
  show ?case
    unfolding sort_cmp_Cons
  proof (rule sorted_insert_sorted_on[where S = S])
    fix a b assume "a \<in> S" "b \<in> S"
    then show "precedes a b \<or> precedes b a" by (rule tot)
  next
    fix a b c assume "a \<in> S" "b \<in> S" "c \<in> S" "precedes a b" "precedes b c"
    then show "precedes a c" by (rule tr)
  qed (fact h)+
qed

text \<open>On doubles that are not \<^verbatim>\<open>NaN\<close>, \<^verbatim>\<open><\<close> is a strict linear order.\<close>

lemma double_less_irrefl [simp]: "\<not> double_less x x"
  by (cases x) auto

lemma double_less_trans: "double_less x y \<Longrightarrow> double_less y z \<Longrightarrow> double_less x z"
  by (cases x; cases y; cases z) auto

lemma double_less_asym: "double_less x y \<Longrightarrow> \<not> double_less y x"
  by (cases x; cases y) auto

lemma double_less_linear: "x \<noteq> NaN \<Longrightarrow> y \<noteq> NaN \<Longrightarrow> double_less x y \<or> x = y \<or> double_less y x"
  by (cases x; cases y) auto

lemma cmp_semantic_le:
  "(cmp_semantic a b \<le> 0) =
   (double_less (finalScore_of b) (finalScore_of a)
    \<or> (\<not> double_less (finalScore_of a) (finalScore_of b) \<and> depth (sf_path a) \<le> depth (sf_path b)))"
  by (auto simp: cmp_semantic_def dest: double_less_asym)

lemma cmp_semantic_total:
  assumes "finalScore_of a \<noteq> NaN" "finalScore_of b \<noteq> NaN"
  shows "cmp_semantic a b \<le> 0 \<or> cmp_semantic b a \<le> 0"
  unfolding cmp_semantic_le using double_less_linear[OF assms] by auto

lemma cmp_semantic_trans:
  assumes n: "finalScore_of a \<noteq> NaN" "finalScore_of b \<noteq> NaN" "finalScore_of c \<noteq> NaN"
    and ab: "cmp_semantic a b \<le> 0" and bc: "cmp_semantic b c \<le> 0"
  shows "cmp_semantic a c \<le> 0"
proof -
  consider "double_less (finalScore_of b) (finalScore_of a)"
    | "finalScore_of a = finalScore_of b" "depth (sf_path a) \<le> depth (sf_path b)"
    using ab n double_less_linear[of "finalScore_of a" "finalScore_of b"] unfolding cmp_semantic_le by auto
  then show ?thesis
  proof cases
    case 1
    consider "double_less (finalScore_of c) (finalScore_of b)"
      | "finalScore_of b = finalScore_of c"
      using bc n double_less_linear[of "finalScore_of b" "finalScore_of c"] unfolding cmp_semantic_le by auto
    then show ?thesis
    proof cases
      case 1
      with \<open>double_less (finalScore_of b) (finalScore_of a)\<close> show ?thesis
        unfolding cmp_semantic_le using double_less_trans by blast
    next
      case 2
      with \<open>double_less (finalScore_of b) (finalScore_of a)\<close> show ?thesis
        unfolding cmp_semantic_le by simp
    qed
  next
    case 2
    then show ?thesis using bc unfolding cmp_semantic_le by auto
  qed
qed

lemma consistent_on_iff:
  "consistent_on precedes xs \<longleftrightarrow>
   (\<forall>a \<in> set xs. \<forall>b \<in> set xs. (precedes a b \<or> precedes b a)
      \<and> (\<forall>c \<in> set xs. precedes a b \<longrightarrow> precedes b c \<longrightarrow> precedes a c))"
  unfolding consistent_on_def list_all_iff by simp blast

lemma semantic_consistent:
  assumes "\<forall>f \<in> set xs. finalScore_of f \<noteq> NaN"
  shows "consistent_on (\<lambda>a b. cmp_semantic a b \<le> 0) xs"
  unfolding consistent_on_iff
proof (intro ballI conjI impI)
  fix a b assume "a \<in> set xs" "b \<in> set xs"
  then show "cmp_semantic a b \<le> 0 \<or> cmp_semantic b a \<le> 0"
    using assms by (intro cmp_semantic_total) auto
next
  fix a b c assume "a \<in> set xs" "b \<in> set xs" "c \<in> set xs"
  then have n: "finalScore_of a \<noteq> NaN" "finalScore_of b \<noteq> NaN" "finalScore_of c \<noteq> NaN"
    using assms by auto
  assume "cmp_semantic a b \<le> 0" "cmp_semantic b c \<le> 0"
  then show "cmp_semantic a c \<le> 0"
    by (rule cmp_semantic_trans[OF n])
qed

lemma sorted_consistent:
  assumes "consistent_on precedes xs"
  shows "sorted_wrt precedes (sort_cmp precedes xs)"
proof (rule sorted_sort_cmp_on[where S = "set xs"])
  show "set xs \<subseteq> set xs" by simp
next
  fix a b assume "a \<in> set xs" "b \<in> set xs"
  then show "precedes a b \<or> precedes b a"
    using assms unfolding consistent_on_iff by blast
next
  fix a b c assume "a \<in> set xs" "b \<in> set xs" "c \<in> set xs" "precedes a b" "precedes b c"
  then show "precedes a c"
    using assms unfolding consistent_on_iff by blast
qed

text \<open>The engine's order is a rearrangement.\<close>

lemma set_arrange [simp]: "set (arrange choices xs) = set xs"
proof (induction choices xs rule: arrange.induct)
  case (1 choices)
  show ?case by simp
next
  case (2 choices x xs)
  define i where "i = (case choices of [] \<Rightarrow> 0 | c # cs \<Rightarrow> c mod Suc (length xs))"
  have i: "i < length (x # xs)" by (simp add: i_def split: list.splits)
  have "set (arrange (tl choices) (take i (x # xs) @ drop (Suc i) (x # xs)))
        = set (take i (x # xs) @ drop (Suc i) (x # xs))"
    by (rule 2) (simp add: i_def)
  moreover have "set (x # xs) = set (take i (x # xs) @ (x # xs) ! i # drop (Suc i) (x # xs))"
    using id_take_nth_drop[OF i] by simp
  ultimately have "set ((x # xs) ! i # arrange (tl choices) (take i (x # xs) @ drop (Suc i) (x # xs))) = set (x # xs)"
    by auto
  then show ?case
    unfolding arrange.simps Let_def i_def .
qed

text \<open>A sort by a comparator commutes with a change of the elements the comparator does not see.\<close>

lemma insert_sorted_all2:
  assumes "\<And>a a' b b'. R a a' \<Longrightarrow> R b b' \<Longrightarrow> precedes a b = precedes a' b'"
    and "R x x'" "list_all2 R ys ys'"
  shows "list_all2 R (insert_sorted precedes x ys) (insert_sorted precedes x' ys')"
  using assms(3)
proof (induction ys ys' rule: list_all2_induct)
  case Nil
  then show ?case using assms(2) by simp
next
  case (Cons y ys y' ys')
  then show ?case using assms(1)[OF assms(2) Cons.hyps(1)] assms(2) by auto
qed

lemma sort_cmp_all2:
  assumes "\<And>a a' b b'. R a a' \<Longrightarrow> R b b' \<Longrightarrow> precedes a b = precedes a' b'"
    and "list_all2 R xs xs'"
  shows "list_all2 R (sort_cmp precedes xs) (sort_cmp precedes xs')"
  using assms(2)
proof (induction xs xs' rule: list_all2_induct)
  case Nil
  then show ?case by simp
next
  case (Cons x xs x' xs')
  show ?case
    unfolding sort_cmp_Cons
    by (rule insert_sorted_all2[where R=R, OF assms(1) Cons.hyps(1) Cons.IH])
qed




subsection \<open>Budget\<close>

lemma admit_budget:
  "length (files res) \<le> maxFiles \<Longrightarrow> totalBytes res \<le> maxBytes \<Longrightarrow>
   length (files (admit maxFiles maxBytes fs res)) \<le> maxFiles
   \<and> totalBytes (admit maxFiles maxBytes fs res) \<le> maxBytes"
  by (induction fs arbitrary: res) auto

lemma admit_entries:
  "f \<in> set (files (admit maxFiles maxBytes fs res)) \<Longrightarrow>
   f \<in> set (files res) \<or> (\<exists>s \<in> set fs. f = admitted_entry s)"
proof (induction fs arbitrary: res)
  case Nil
  then show ?case by simp
next
  case (Cons a fs)
  let ?res' = "res\<lparr> files := files res @ [admitted_entry a], totalBytes := totalBytes res + sf_bytes a \<rparr>"
  show ?case
  proof (cases "length (files res) \<ge> maxFiles \<or> totalBytes res + sf_bytes a > maxBytes")
    case True
    then show ?thesis using Cons.prems by (auto split: if_splits)
  next
    case False
    then have "f \<in> set (files (admit maxFiles maxBytes fs ?res'))"
      using Cons.prems by auto
    from Cons.IH[OF this] show ?thesis by auto
  qed
qed

lemma add_deps_bytes:
  "totalBytes res \<le> maxBytes \<Longrightarrow> totalBytes (add_deps maxBytes fetch_dep deps res) \<le> maxBytes"
  by (induction deps arbitrary: res) (auto split: option.splits)

lemma add_deps_length:
  "length (files (add_deps maxBytes fetch_dep deps res)) \<le> length (files res) + length deps"
proof (induction deps arbitrary: res)
  case Nil
  then show ?case by simp
next
  case (Cons dep deps)
  let ?res' = "\<lambda>decoded. res\<lparr> files := files res @ [\<lparr> path = dep, content = decoded, truncated = None,
                                                  bytes = None, score = None \<rparr>],
                          totalBytes := totalBytes res + byteLength decoded \<rparr>"
  have a: "length (files (add_deps maxBytes fetch_dep deps res)) \<le> length (files res) + length deps"
    by (rule Cons.IH)
  have b: "length (files (add_deps maxBytes fetch_dep deps (?res' d))) \<le> Suc (length (files res)) + length deps" for d
    using Cons.IH[of "?res' d"] by simp
  show ?case using a b by (auto split: option.splits simp: le_SucI)
qed

lemma add_deps_ranked:
  "filter (\<lambda>f. bytes f \<noteq> None) (files (add_deps maxBytes fetch_dep deps res))
   = filter (\<lambda>f. bytes f \<noteq> None) (files res)"
  by (induction deps arbitrary: res) (auto split: option.splits)

lemma add_deps_entries:
  "f \<in> set (files (add_deps maxBytes fetch_dep deps res)) \<Longrightarrow>
   f \<in> set (files res) \<or> (path f \<in> set deps \<and> bytes f = None)"
proof (induction deps arbitrary: res)
  case Nil
  then show ?case by simp
next
  case (Cons dep deps)
  let ?res' = "\<lambda>decoded. res\<lparr> files := files res @ [\<lparr> path = dep, content = decoded, truncated = None,
                                                  bytes = None, score = None \<rparr>],
                          totalBytes := totalBytes res + byteLength decoded \<rparr>"
  from Cons.prems
  have "f \<in> set (files (add_deps maxBytes fetch_dep deps res))
        \<or> (\<exists>d. f \<in> set (files (add_deps maxBytes fetch_dep deps (?res' d))))"
    by (auto split: option.splits if_splits)
  then show ?case
  proof
    assume "f \<in> set (files (add_deps maxBytes fetch_dep deps res))"
    from Cons.IH[OF this] show ?thesis by auto
  next
    assume "\<exists>d. f \<in> set (files (add_deps maxBytes fetch_dep deps (?res' d)))"
    then obtain d where "f \<in> set (files (add_deps maxBytes fetch_dep deps (?res' d)))" ..
    from Cons.IH[OF this] show ?thesis by auto
  qed
qed

text \<open>
  C2 (as amended). For every output of \<^verbatim>\<open>fetchRepoTreeAndFiles\<close>, with \<open>maxFiles\<close> and
  \<open>maxBytes\<close> the caps in force (an absent or zero option gives 50 and 200000):
  \<open>totalBytes \<le> maxBytes\<close>, also after the pass that adds the manifest files; the files
  admitted by the ranked pass, which are those that carry \<open>bytes\<close>, number at most
  \<open>maxFiles\<close>; the manifest pass tests the byte budget only, so that
  \<open>files.length \<le> maxFiles + 3\<close>.
\<close>

theorem budget_invariant:
  "totalBytes (fetchRepoTreeAndFiles e os q) \<le> or_default (opt_maxBytes os) 200000
   \<and> length (filter (\<lambda>f. bytes f \<noteq> None) (files (fetchRepoTreeAndFiles e os q)))
        \<le> or_default (opt_maxFiles os) 50
   \<and> length (files (fetchRepoTreeAndFiles e os q)) \<le> or_default (opt_maxFiles os) 50 + 3"
proof (cases "env_tree e")
  case None
  then show ?thesis by (simp add: fetchRepoTreeAndFiles_def empty_result_def)
next
  case (Some tree)
  let ?F = "or_default (opt_maxFiles os) 50" and ?B = "or_default (opt_maxBytes os) 200000"
  let ?a = "admit ?F ?B (ranked e os q tree) empty_result"
  have r: "fetchRepoTreeAndFiles e os q = add_deps ?B (env_fetch_dep e) depFiles ?a"
    using Some by (simp add: fetchRepoTreeAndFiles_def Let_def)
  have a: "length (files ?a) \<le> ?F \<and> totalBytes ?a \<le> ?B"
    by (rule admit_budget) (simp_all add: empty_result_def)
  have "length (filter (\<lambda>f. bytes f \<noteq> None) (files ?a)) \<le> length (files ?a)"
    by (rule length_filter_le)
  then have c: "length (filter (\<lambda>f. bytes f \<noteq> None) (files (fetchRepoTreeAndFiles e os q))) \<le> ?F"
    unfolding r add_deps_ranked using a by linarith
  have "length (files (fetchRepoTreeAndFiles e os q)) \<le> length (files ?a) + length depFiles"
    unfolding r by (rule add_deps_length)
  then have l: "length (files (fetchRepoTreeAndFiles e os q)) \<le> ?F + 3"
    using a by (simp add: depFiles_def)
  have b: "totalBytes (fetchRepoTreeAndFiles e os q) \<le> ?B"
    unfolding r using a by (intro add_deps_bytes) simp
  show ?thesis using b c l by simp
qed

subsection \<open>The scoring window\<close>

lemma score_loop_paths:
  "set (map sf_path (fst (score_loop res maxFiles maxBytes kws fetch items))) \<subseteq> set (map t_path items)
   \<and> set (snd (score_loop res maxFiles maxBytes kws fetch items)) \<subseteq> set (map t_path items)
   \<and> length (snd (score_loop res maxFiles maxBytes kws fetch items)) \<le> length items
   \<and> length (fst (score_loop res maxFiles maxBytes kws fetch items)) \<le> length items"
proof (induction items)
  case Nil
  then show ?case by simp
next
  case (Cons item items)
  obtain sfs reqs where l: "score_loop res maxFiles maxBytes kws fetch items = (sfs, reqs)"
    by (cases "score_loop res maxFiles maxBytes kws fetch items") auto
  have ih: "set (map sf_path sfs) \<subseteq> set (map t_path items)" "set reqs \<subseteq> set (map t_path items)"
    "length reqs \<le> length items" "length sfs \<le> length items"
    using Cons.IH unfolding l by simp_all
  have p: "sf_path (score_item kws item d) = t_path item" for d
    by (simp add: score_item_def Let_def)
  show ?case
    using ih p by (auto simp: l split: option.splits)
qed

lemma annotate_all_paths [simp]: "map sf_path (annotate_all blend fs sims) = map sf_path fs"
  by (induction blend fs sims rule: annotate_all.induct) (auto simp: annotate_def)

lemma set_semantic_order [simp]: "set (semantic_order choices xs) = set xs"
  by (simp add: semantic_order_def)

lemma rank_files_paths:
  "set (map sf_path (rank_files blend choices q openai emb sfs)) = set (map sf_path sfs)"
proof -
  have a: "set (map sf_path (sort_cmp precedes xs)) = set (map sf_path xs)" for precedes and xs :: "scored_file list"
    by simp
  have b: "set (map sf_path (semantic_order choices xs)) = set (map sf_path xs)" for xs
    by simp
  have c: "set (map sf_path (annotate_all blend sfs sims)) = set (map sf_path sfs)" for sims
    by simp
  show ?thesis
    unfolding rank_files_def lexical_order_def
    by (auto split: emb_outcome.splits simp: a b c simp del: set_map annotate_all_paths set_semantic_order set_sort_cmp)
qed

lemma admitted_entry_path [simp]: "path (admitted_entry s) = sf_path s"
  and admitted_entry_bytes [simp]: "bytes (admitted_entry s) = Some (sf_bytes s)"
  by (simp_all add: admitted_entry_def Let_def)

text \<open>
  C9. Only the first 500 entries of the filtered candidate list, which is sorted by depth and
  then by descending size hint, are requested from the file store and scored. Every file of
  the result has the path of one of these entries, or is one of the three manifest files
  added by the last pass (such an entry carries no \<open>bytes\<close>).
\<close>

theorem scoring_window:
  assumes "env_tree e = Some tree"
  shows "set (requested_paths e os q) \<subseteq> set (map t_path (take 500 (filteredCandidates (env_rules e) tree)))
       \<and> length (requested_paths e os q) \<le> 500
       \<and> length (fst (scoring e os q tree)) \<le> 500
       \<and> (\<forall>f \<in> set (files (fetchRepoTreeAndFiles e os q)).
             path f \<in> set (map t_path (take 500 (filteredCandidates (env_rules e) tree)))
             \<or> (path f \<in> set depFiles \<and> bytes f = None))
       \<and> sorted_wrt (\<lambda>a b. cmp_structural a b \<le> 0) (filteredCandidates (env_rules e) tree)"
proof (intro conjI ballI)
  let ?w = "take 500 (filteredCandidates (env_rules e) tree)"
  let ?F = "or_default (opt_maxFiles os) 50" and ?B = "or_default (opt_maxBytes os) 200000"
  note sl = score_loop_paths[of empty_result ?F ?B "keywords_of q" "env_fetch e" ?w]
  have len: "length ?w \<le> 500" by simp
  show "set (requested_paths e os q) \<subseteq> set (map t_path ?w)"
    using sl assms by (simp add: requested_paths_def scoring_def topCandidates_def)
  have "length (snd (scoring e os q tree)) \<le> length ?w"
    using sl unfolding scoring_def topCandidates_def by blast
  then show "length (requested_paths e os q) \<le> 500"
    using len assms unfolding requested_paths_def by (simp del: length_take)
  have "length (fst (scoring e os q tree)) \<le> length ?w"
    using sl unfolding scoring_def topCandidates_def by blast
  then show "length (fst (scoring e os q tree)) \<le> 500"
    using len by (simp del: length_take)
  show "sorted_wrt (\<lambda>a b. cmp_structural a b \<le> 0) (filteredCandidates (env_rules e) tree)"
    unfolding filteredCandidates_def by (rule sorted_sort_cmp[OF total_preorder_structural])
  fix f assume f: "f \<in> set (files (fetchRepoTreeAndFiles e os q))"
  let ?a = "admit ?F ?B (ranked e os q tree) empty_result"
  have r: "fetchRepoTreeAndFiles e os q = add_deps ?B (env_fetch_dep e) depFiles ?a"
    using assms by (simp add: fetchRepoTreeAndFiles_def Let_def)
  from f have "f \<in> set (files ?a) \<or> (path f \<in> set depFiles \<and> bytes f = None)"
    unfolding r by (rule add_deps_entries)
  then show "path f \<in> set (map t_path ?w) \<or> (path f \<in> set depFiles \<and> bytes f = None)"
  proof
    assume "f \<in> set (files ?a)"
    then obtain s where s: "s \<in> set (ranked e os q tree)" "f = admitted_entry s"
      using admit_entries[of f ?F ?B "ranked e os q tree" empty_result]
      by (auto simp: empty_result_def)
    have "sf_path s \<in> set (map sf_path (ranked e os q tree))" using s(1) by simp
    then have "sf_path s \<in> set (map sf_path (fst (scoring e os q tree)))"
      unfolding ranked_def rank_files_paths .
    then have "sf_path s \<in> set (map t_path ?w)"
      using sl unfolding scoring_def topCandidates_def by blast
    then show ?thesis using s(2) by simp
  qed simp
qed

lemmas string_defs = endsWith_def is_word_def to_lower_def toLowerCase_def count_matches_def byteLength_def
  depth_def code_unit_def nl_def

lemmas selection_defs =
  fetchRepoTreeAndFiles_def ranked_def scoring_def topCandidates_def filteredCandidates_def
  is_candidate_def keep_candidate_def exts_def skipPatterns_def keywords_of_def truncate_def
  truncation_marker_def lexical_score_def score_item_def rank_files_def lexical_order_def
  sort_cmp_def cmp_lexical_def cmp_structural_def admitted_entry_def reported_score_def depFiles_def
  empty_result_def semantic_order_def consistent_on_def cmp_semantic_def finalScore_of_def annotate_def
  number_truthy_def
  Let_def

subsection \<open>Lexical score\<close>

lemma foldl_plus: "foldl (\<lambda>acc k. acc + g k) (a::nat) ks = a + sum_list (map g ks)"
  by (induction ks arbitrary: a) auto

lemma lexical_score_sum:
  "lexical_score kws p c =
     (\<Sum>k\<leftarrow>kws. if sublist k p then 10 else 0) + (\<Sum>k\<leftarrow>kws. min (count_matches k c) 20)"
proof -
  have "(\<lambda>acc k. if includes_str p k then acc + 10 else acc)
        = (\<lambda>(acc::nat) k. acc + (if sublist k p then 10 else 0))"
    by (intro ext) (simp add: includes_str_sublist)
  then show ?thesis
    unfolding lexical_score_def Let_def by (simp add: foldl_plus)
qed

text \<open>
  The count of the expression's matches: none when the keyword does not occur, and one more
  than in the rest of the text after the first occurrence. The occurrence of \<open>k\<close> after
  \<open>a\<close> is the first one when \<open>k\<close> does not occur in \<open>a\<close> followed by all but the last
  character of \<open>k\<close>.
\<close>

lemma count_from_skip: "length xs = n \<Longrightarrow> count_from n k (xs @ r) = count_from 0 k r"
  by (induction xs arbitrary: n) auto

lemma count_from_none: "\<not> sublist k s \<Longrightarrow> count_from 0 k s = 0"
proof (induction s)
  case Nil
  then show ?case by auto
next
  case (Cons c s)
  then have "\<not> prefix k (c # s)" "\<not> sublist k s"
    by (auto simp: sublist_Cons_right)
  with Cons.IH show ?case by (simp add: starts_with_prefix)
qed

lemma prefix_append_short: "prefix k (u @ v) \<Longrightarrow> length k \<le> length u \<Longrightarrow> prefix k u"
  by (auto simp: prefix_append)

lemma butlast_last_append: "k \<noteq> [] \<Longrightarrow> butlast k @ last k # r = k @ r"
  by (cases k rule: rev_cases) auto

lemma count_from_first:
  assumes "k \<noteq> []"
  shows "\<not> sublist k (a @ butlast k) \<Longrightarrow> count_from 0 k (a @ k @ r) = Suc (count_from 0 k r)"
proof (induction a)
  case Nil
  obtain c k' where k: "k = c # k'" using assms by (cases k) auto
  have "starts_with (c # k' @ r) (c # k')"
    unfolding starts_with_prefix by simp
  moreover have "count_from (length k') (c # k') (k' @ r) = count_from 0 (c # k') r"
    by (rule count_from_skip) simp
  ultimately show ?case unfolding k by simp
next
  case (Cons x a)
  have "\<not> prefix k ((x # a) @ k @ r)"
  proof
    assume "prefix k ((x # a) @ k @ r)"
    then have "prefix k (((x # a) @ butlast k) @ [last k] @ r)"
      using assms by (simp add: butlast_last_append)
    then have "prefix k ((x # a) @ butlast k)"
      by (rule prefix_append_short) (use assms in simp)
    then show False using Cons.prems by (auto simp: sublist_Cons_right)
  qed
  moreover have "\<not> sublist k (a @ butlast k)"
    using Cons.prems by (auto simp: sublist_Cons_right)
  ultimately show ?case
    using Cons.IH by (simp add: starts_with_prefix)
qed

text \<open>
  The split at the runs of non-word characters: a text of word characters is its only token,
  and the first token ends at the first non-word character, the rest being split after the
  run that this character starts.
\<close>

lemma split_nonword_word: "list_all is_word w \<Longrightarrow> split_nonword w = [w]"
  by (induction w) auto

lemma split_nonword_first:
  "list_all is_word w \<Longrightarrow> \<not> is_word c \<Longrightarrow>
   split_nonword (w @ c # r) = w # split_nonword (dropWhile (\<lambda>x. \<not> is_word x) r)"
  by (induction w) auto

lemma or_default_pos: "0 < d \<Longrightarrow> 0 < or_default x d"
  by (cases x) auto

lemma score_loop_map_filter:
  assumes "0 < maxFiles" "0 < maxBytes"
  shows "fst (score_loop empty_result maxFiles maxBytes kws fetch items)
         = List.map_filter (scored_of kws fetch) items
       \<and> snd (score_loop empty_result maxFiles maxBytes kws fetch items) = map t_path items"
  using assms
  by (induction items)
     (auto simp: empty_result_def List.map_filter_simps scored_of_def split: prod.splits option.splits)

lemma scored_paths:
  "map sf_path (List.map_filter (scored_of kws fetch) items)
   = map t_path (filter (\<lambda>it. case fetch (t_path it) of None \<Rightarrow> False | Some r \<Rightarrow> fr_content r \<noteq> []) items)"
  by (induction items)
     (auto simp: List.map_filter_simps scored_of_def score_item_def Let_def split: option.splits)

lemma split_nonword_words: "\<forall>w \<in> set (split_nonword s). list_all is_word w"
proof (induction s rule: split_nonword.induct)
  case 1
  then show ?case by simp
next
  case (2 c s)
  show ?case
  proof (cases "is_word c")
    case True
    with 2 show ?thesis by (auto split: list.splits)
  next
    case False
    with 2 show ?thesis by auto
  qed
qed

lemma keywords_of_words: "k \<in> set (keywords_of q) \<Longrightarrow> 3 < length k \<and> list_all is_word k"
  using split_nonword_words[of "toLowerCase q"] by (auto simp: keywords_of_def)

text \<open>
  C7. A candidate of the window whose contents request returns a payload that is not empty
  is scored, on its path and its decoded, possibly truncated, text (which may be empty), with
  exactly: 10 for each keyword that occurs in the lower-cased path as a contiguous substring,
  plus for each keyword the number of its occurrences in the lower-cased text, capped at 20.
  Every scored file has this score, and the scored files are these candidates, in the order
  of the window. The keywords are the tokens of the lower-cased question, split at the
  runs of non-word characters, that are longer than 3; they consist of word characters. The
  occurrences counted are those the regular expression finds, from left to right, each
  search resuming at the end of the occurrence before: none when the keyword does not occur,
  and otherwise one for the first occurrence plus those of the text after it.
\<close>

theorem lexical_score_exact:
  assumes "item \<in> set (topCandidates e tree)"
    and "env_fetch e (t_path item) = Some fileRes" and "fr_content fileRes \<noteq> []"
  shows "(\<exists>f \<in> set (fst (scoring e os q tree)).
            sf_path f = t_path item \<and> sf_content f = truncate (fr_text fileRes)
            \<and> sf_score f =
                (\<Sum>k\<leftarrow>keywords_of q. if sublist k (toLowerCase (t_path item)) then 10 else 0)
              + (\<Sum>k\<leftarrow>keywords_of q. min (count_matches k (toLowerCase (truncate (fr_text fileRes)))) 20))
       \<and> (\<forall>f \<in> set (fst (scoring e os q tree)).
            sf_score f =
                (\<Sum>k\<leftarrow>keywords_of q. if sublist k (toLowerCase (sf_path f)) then 10 else 0)
              + (\<Sum>k\<leftarrow>keywords_of q. min (count_matches k (toLowerCase (sf_content f))) 20))
       \<and> map sf_path (fst (scoring e os q tree))
           = map t_path (filter (\<lambda>it. case env_fetch e (t_path it) of None \<Rightarrow> False
                                        | Some r \<Rightarrow> fr_content r \<noteq> [])
                          (topCandidates e tree))
       \<and> keywords_of q = filter (\<lambda>w. length w > 3) (split_nonword (toLowerCase q))
       \<and> (\<forall>k \<in> set (keywords_of q). list_all is_word k)
       \<and> (\<forall>w. list_all is_word w \<longrightarrow> split_nonword w = [w])
       \<and> (\<forall>w c r. list_all is_word w \<and> \<not> is_word c \<longrightarrow>
              split_nonword (w @ c # r) = w # split_nonword (dropWhile (\<lambda>x. \<not> is_word x) r))
       \<and> (\<forall>k s. \<not> sublist k s \<longrightarrow> count_matches k s = 0)
       \<and> (\<forall>k a r. k \<noteq> [] \<and> \<not> sublist k (a @ butlast k) \<longrightarrow>
              count_matches k (a @ k @ r) = Suc (count_matches k r))"
proof (intro conjI ballI allI impI)
  let ?F = "or_default (opt_maxFiles os) 50" and ?B = "or_default (opt_maxBytes os) 200000"
  have sc: "fst (scoring e os q tree) = List.map_filter (scored_of (keywords_of q) (env_fetch e)) (topCandidates e tree)"
    unfolding scoring_def using score_loop_map_filter[of ?F ?B] by (simp add: or_default_pos)
  have "scored_of (keywords_of q) (env_fetch e) item = Some (score_item (keywords_of q) item (fr_text fileRes))"
    using assms(2,3) by (simp add: scored_of_def)
  then have "score_item (keywords_of q) item (fr_text fileRes) \<in> set (fst (scoring e os q tree))"
    unfolding sc using assms(1) by (force simp: List.map_filter_def)
  then show "\<exists>f \<in> set (fst (scoring e os q tree)).
            sf_path f = t_path item \<and> sf_content f = truncate (fr_text fileRes)
            \<and> sf_score f =
                (\<Sum>k\<leftarrow>keywords_of q. if sublist k (toLowerCase (t_path item)) then 10 else 0)
              + (\<Sum>k\<leftarrow>keywords_of q. min (count_matches k (toLowerCase (truncate (fr_text fileRes)))) 20)"
    by (rule bexI[rotated]) (simp add: score_item_def Let_def lexical_score_sum)
  show "map sf_path (fst (scoring e os q tree))
           = map t_path (filter (\<lambda>it. case env_fetch e (t_path it) of None \<Rightarrow> False
                                        | Some r \<Rightarrow> fr_content r \<noteq> [])
                          (topCandidates e tree))"
    unfolding sc by (rule scored_paths)
  show "keywords_of q = filter (\<lambda>w. length w > 3) (split_nonword (toLowerCase q))"
    by (simp add: keywords_of_def)
  show "list_all is_word k" if "k \<in> set (keywords_of q)" for k
    using keywords_of_words[OF that] by simp
  show "split_nonword w = [w]" if "list_all is_word w" for w
    using that by (rule split_nonword_word)
  show "split_nonword (w @ c # r) = w # split_nonword (dropWhile (\<lambda>x. \<not> is_word x) r)"
    if "list_all is_word w \<and> \<not> is_word c" for w c r
    using that by (simp add: split_nonword_first)
  show "count_matches k s = 0" if "\<not> sublist k s" for k s
    using that by (simp add: count_matches_def count_from_none)
  show "count_matches k (a @ k @ r) = Suc (count_matches k r)"
    if "k \<noteq> [] \<and> \<not> sublist k (a @ butlast k)" for k a r
    using that by (simp add: count_matches_def count_from_first)
  fix f assume "f \<in> set (fst (scoring e os q tree))"
  then obtain it d where "f = score_item (keywords_of q) it d"
    unfolding sc by (auto simp: List.map_filter_def scored_of_def split: option.splits if_splits)
  then show "sf_score f =
                (\<Sum>k\<leftarrow>keywords_of q. if sublist k (toLowerCase (sf_path f)) then 10 else 0)
              + (\<Sum>k\<leftarrow>keywords_of q. min (count_matches k (toLowerCase (sf_content f))) 20)"
    by (simp add: score_item_def Let_def lexical_score_sum)
qed

subsection \<open>Ranking\<close>

lemma annotate_all_same: "list_all2 same_file (annotate_all blend fs sims) fs"
  by (induction blend fs sims rule: annotate_all.induct)
     (auto simp: same_file_def annotate_def list_all2_same)

lemma cmp_lexical_same:
  "same_file a a' \<Longrightarrow> same_file b b' \<Longrightarrow> (cmp_lexical a b \<le> 0) = (cmp_lexical a' b' \<le> 0)"
  by (simp add: same_file_def cmp_lexical_def)

lemma lexical_order_annotated:
  "list_all2 same_file (lexical_order (annotate_all blend fs sims)) (lexical_order fs)"
  unfolding lexical_order_def
  by (rule sort_cmp_all2[where R = same_file, OF cmp_lexical_same annotate_all_same])

lemma cmp_lexical_le:
  "(cmp_lexical a b \<le> 0) =
   (sf_score b < sf_score a \<or> (sf_score a = sf_score b \<and> depth (sf_path a) \<le> depth (sf_path b)))"
  by (auto simp: cmp_lexical_def Let_def)

lemma sorted_lexical_order:
  "sorted_wrt (\<lambda>a b. sf_score b < sf_score a \<or> (sf_score a = sf_score b \<and> depth (sf_path a) \<le> depth (sf_path b)))
     (lexical_order sfs)"
  using sorted_sort_cmp[OF total_preorder_lexical, of sfs]
  unfolding lexical_order_def cmp_lexical_le .

text \<open>
  C5. When the embedding block fails, the ranking is the lexical order: the scored files
  sorted by descending lexical score, ties broken by the shallower path. It is the order of a
  call in which the re-ranker is skipped (no client, or an empty question), and the whole
  result of a call whose embedding request fails equals that of a call without a client.
  When the failure comes after some files were annotated, the order of the files is still the
  lexical one.
\<close>

theorem embedding_failure_lexical:
  "rank_files blend choices q openai EmbError sfs = lexical_order sfs
   \<and> rank_files blend choices q False emb sfs = lexical_order sfs
   \<and> rank_files blend choices [] openai emb sfs = lexical_order sfs
   \<and> (length sims < length sfs \<longrightarrow>
        map (\<lambda>f. (sf_path f, sf_content f, sf_bytes f, sf_score f)) (rank_files blend choices q openai (EmbSims sims) sfs)
        = map (\<lambda>f. (sf_path f, sf_content f, sf_bytes f, sf_score f)) (lexical_order sfs))
   \<and> sorted_wrt (\<lambda>a b. sf_score b < sf_score a \<or> (sf_score a = sf_score b \<and> depth (sf_path a) \<le> depth (sf_path b)))
        (lexical_order sfs)
   \<and> set (lexical_order sfs) = set sfs \<and> length (lexical_order sfs) = length sfs
   \<and> fetchRepoTreeAndFiles (e\<lparr> env_embed := EmbError \<rparr>) os q
       = fetchRepoTreeAndFiles (e\<lparr> env_openai := False \<rparr>) os q"
proof (intro conjI impI)
  show "rank_files blend choices q openai EmbError sfs = lexical_order sfs"
    by (simp add: rank_files_def)
  show "rank_files blend choices q False emb sfs = lexical_order sfs"
    by (simp add: rank_files_def)
  show "rank_files blend choices [] openai emb sfs = lexical_order sfs"
    by (simp add: rank_files_def)
  show "sorted_wrt (\<lambda>a b. sf_score b < sf_score a \<or> (sf_score a = sf_score b \<and> depth (sf_path a) \<le> depth (sf_path b)))
        (lexical_order sfs)"
    by (rule sorted_lexical_order)
  show "set (lexical_order sfs) = set sfs" "length (lexical_order sfs) = length sfs"
    by (simp_all add: lexical_order_def)
  show "fetchRepoTreeAndFiles (e\<lparr> env_embed := EmbError \<rparr>) os q
       = fetchRepoTreeAndFiles (e\<lparr> env_openai := False \<rparr>) os q"
    by (cases "env_tree e")
       (simp_all add: fetchRepoTreeAndFiles_def ranked_def scoring_def topCandidates_def rank_files_def Let_def)
next
  assume short: "length sims < length sfs"
  let ?core = "\<lambda>f. (sf_path f, sf_content f, sf_bytes f, sf_score f)"
  have "list_all2 same_file (rank_files blend choices q openai (EmbSims sims) sfs) (lexical_order sfs)"
  proof (cases "q \<noteq> [] \<and> openai \<and> length sfs > 0")
    case True
    then have "rank_files blend choices q openai (EmbSims sims) sfs = lexical_order (annotate_all blend sfs sims)"
      using short by (simp add: rank_files_def)
    then show ?thesis by (simp add: lexical_order_annotated)
  next
    case False
    then have "rank_files blend choices q openai (EmbSims sims) sfs = lexical_order sfs"
      by (auto simp: rank_files_def)
    then show ?thesis by (simp add: list_all2_same same_file_def)
  qed
  then have "list_all2 (\<lambda>a b. ?core a = ?core b) (rank_files blend choices q openai (EmbSims sims) sfs) (lexical_order sfs)"
    by (rule list_all2_mono) (simp add: same_file_def)
  then show "map ?core (rank_files blend choices q openai (EmbSims sims) sfs) = map ?core (lexical_order sfs)"
    by (simp add: list_all2_conv_all_nth list_eq_iff_nth_eq)
qed

theorem embedding_failure_lexical_witness:
  "length [Finite (1 / 2)] < length [ex_deep, ex_top]
   \<and> map sf_path (rank_files ex_blend [] ''where'' True (EmbSims [Finite (1 / 2)]) [ex_deep, ex_top]) = [''top.js'', ''src/deep.js'']
   \<and> map sf_path (lexical_order [ex_deep, ex_top]) = [''top.js'', ''src/deep.js'']"
proof -
  have l: "length [Finite (1 / 2)] < length [ex_deep, ex_top]" by simp
  have a: "map sf_path (lexical_order [ex_deep, ex_top]) = [''top.js'', ''src/deep.js'']"
    by (simp add: lexical_order_def sort_cmp_def cmp_lexical_def ex_deep_def ex_top_def depth_def)
  have "map (\<lambda>f. (sf_path f, sf_content f, sf_bytes f, sf_score f)) (rank_files ex_blend [] ''where'' True (EmbSims [Finite (1 / 2)]) [ex_deep, ex_top])
        = map (\<lambda>f. (sf_path f, sf_content f, sf_bytes f, sf_score f)) (lexical_order [ex_deep, ex_top])"
    using embedding_failure_lexical[where blend = ex_blend and choices = "[]" and q = "''where''"
          and openai = True and sfs = "[ex_deep, ex_top]" and sims = "[Finite (1 / 2)]"] l by blast
  then have "map fst (map (\<lambda>f. (sf_path f, sf_content f, sf_bytes f, sf_score f)) (rank_files ex_blend [] ''where'' True (EmbSims [Finite (1 / 2)]) [ex_deep, ex_top]))
        = map fst (map (\<lambda>f. (sf_path f, sf_content f, sf_bytes f, sf_score f)) (lexical_order [ex_deep, ex_top]))"
    by simp
  then have b: "map sf_path (rank_files ex_blend [] ''where'' True (EmbSims [Finite (1 / 2)]) [ex_deep, ex_top]) = map sf_path (lexical_order [ex_deep, ex_top])"
    by (simp add: comp_def)
  show ?thesis using l a b by simp
qed

subsection \<open>Tie-break\<close>

lemma sorted_wrt_positions:
  assumes "sorted_wrt P r" "i < length r" "j < length r" "\<not> P (r ! j) (r ! i)" "i \<noteq> j"
  shows "i < j"
proof (rule ccontr)
  assume "\<not> i < j"
  then have "j < i" using assms(5) by simp
  then have "P (r ! j) (r ! i)" using assms(1,2) by (simp add: sorted_wrt_iff_nth_less)
  then show False using assms(4) by simp
qed

lemma lexical_positions:
  assumes "i < length (lexical_order xs)" "j < length (lexical_order xs)"
    and "sf_score (lexical_order xs ! i) = sf_score (lexical_order xs ! j)"
    and "depth (sf_path (lexical_order xs ! i)) < depth (sf_path (lexical_order xs ! j))"
  shows "i < j"
proof -
  let ?r = "lexical_order xs"
  have s: "sorted_wrt (\<lambda>a b. cmp_lexical a b \<le> 0) ?r"
    unfolding lexical_order_def by (rule sorted_sort_cmp[OF total_preorder_lexical])
  have "\<not> cmp_lexical (?r ! j) (?r ! i) \<le> 0"
    using assms(3,4) by (simp add: cmp_lexical_def)
  moreover have "i \<noteq> j" using assms(4) by auto
  ultimately show "i < j"
    using sorted_wrt_positions[OF s assms(1,2)] by blast
qed

text \<open>
  After a successful re-rank in which no final score is \<^verbatim>\<open>NaN\<close>, the same holds with the
  final score in place of the lexical score.
\<close>

lemma semantic_positions:
  assumes n: "\<forall>f \<in> set xs. finalScore_of f \<noteq> NaN"
    and "i < length (semantic_order choices xs)" "j < length (semantic_order choices xs)"
    and "finalScore_of (semantic_order choices xs ! i) = finalScore_of (semantic_order choices xs ! j)"
    and "depth (sf_path (semantic_order choices xs ! i)) < depth (sf_path (semantic_order choices xs ! j))"
  shows "i < j"
proof -
  let ?r = "semantic_order choices xs"
  have r: "?r = sort_cmp (\<lambda>a b. cmp_semantic a b \<le> 0) xs"
    using semantic_consistent[OF n] by (simp add: semantic_order_def)
  have s: "sorted_wrt (\<lambda>a b. cmp_semantic a b \<le> 0) ?r"
    unfolding r by (rule sorted_consistent[OF semantic_consistent[OF n]])
  have "\<not> cmp_semantic (?r ! j) (?r ! i) \<le> 0"
    using assms(4,5) by (simp add: cmp_semantic_le)
  moreover have "i \<noteq> j" using assms(5) by auto
  ultimately show "i < j"
    using sorted_wrt_positions[OF s assms(2,3)] by blast
qed

text \<open>The ranking of a call whose re-ranker is skipped or fails.\<close>

lemma rank_files_lexical:
  assumes "q = [] \<or> \<not> openai \<or> emb = EmbError \<or> (\<exists>sims. emb = EmbSims sims \<and> length sims < length sfs)"
  shows "\<exists>xs. rank_files blend choices q openai emb sfs = lexical_order xs \<and> list_all2 same_file xs sfs"
proof (cases "q \<noteq> [] \<and> openai \<and> (\<exists>sims. emb = EmbSims sims)")
  case True
  then obtain sims where e: "emb = EmbSims sims" by blast
  then have "length sims < length sfs" using assms True by auto
  then have "rank_files blend choices q openai emb sfs = lexical_order (annotate_all blend sfs sims)"
    using True e by (simp add: rank_files_def)
  then show ?thesis using annotate_all_same by blast
next
  case False
  then have "rank_files blend choices q openai emb sfs = lexical_order sfs"
    by (cases emb) (auto simp: rank_files_def)
  moreover have "list_all2 same_file sfs sfs"
    by (simp add: list_all2_same same_file_def)
  ultimately show ?thesis by blast
qed

lemma admit_one:
  "files (admit 1 maxBytes (f # fs) empty_result) = (if sf_bytes f \<le> maxBytes then [admitted_entry f] else [])"
  by (cases fs) (simp_all add: empty_result_def)

lemma lexical_pair:
  assumes "sf_score a = sf_score b" "depth (sf_path a) = 2" "depth (sf_path b) = 1"
  shows "lexical_order [a, b] = [b, a]" "lexical_order [b, a] = [b, a]"
  using assms by (simp_all add: lexical_order_def sort_cmp_def cmp_lexical_def)

lemma lexical_pair_paths:
  assumes "sf_score a = sf_score b" "depth (sf_path a) = 2" "depth (sf_path b) = 1"
    and "list_all2 same_file xs [a, b] \<or> list_all2 same_file xs [b, a]"
  shows "map path (files (admit 1 maxBytes (lexical_order xs) empty_result))
         = (if sf_bytes b \<le> maxBytes then [sf_path b] else [])"
proof -
  obtain a' b' where x: "xs = [a', b'] \<or> xs = [b', a']" and s: "same_file a' a" "same_file b' b"
    using assms(4) by (auto simp: list_all2_Cons2)
  have h: "sf_score a' = sf_score b'" "depth (sf_path a') = 2" "depth (sf_path b') = 1"
    using assms(1-3) s by (simp_all add: same_file_def)
  have "lexical_order xs = [b', a']"
    using x lexical_pair[OF h] by auto
  then have "files (admit 1 maxBytes (lexical_order xs) empty_result)
             = (if sf_bytes b' \<le> maxBytes then [admitted_entry b'] else [])"
    by (simp only: admit_one)
  then show ?thesis using s(2) by (simp add: same_file_def)
qed

text \<open>
  C8 (as amended). When the ranking is lexical, that is when the question is empty, no
  client is configured or the embedding block fails, of two scored candidates with equal
  score the one with fewer path segments comes strictly earlier in the ranked list. With
  \<open>maxFiles = 1\<close>, such a ranking and two equally scored candidates at depths 2 and 1, the
  ranked pass admits the depth-1 file when its byte size is at most \<open>maxBytes\<close>, and admits
  no file otherwise.
\<close>

theorem shallower_first:
  "((q = [] \<or> \<not> openai \<or> emb = EmbError \<or> (\<exists>sims. emb = EmbSims sims \<and> length sims < length sfs)) \<longrightarrow>
      (\<forall>i j. i < length (rank_files blend choices q openai emb sfs)
            \<and> j < length (rank_files blend choices q openai emb sfs)
            \<and> sf_score (rank_files blend choices q openai emb sfs ! i)
                = sf_score (rank_files blend choices q openai emb sfs ! j)
            \<and> depth (sf_path (rank_files blend choices q openai emb sfs ! i))
                < depth (sf_path (rank_files blend choices q openai emb sfs ! j))
            \<longrightarrow> i < j))
   \<and> (sf_score a = sf_score b \<and> depth (sf_path a) = 2 \<and> depth (sf_path b) = 1 \<longrightarrow>
        files (admit 1 maxBytes (lexical_order [a, b]) empty_result)
          = (if sf_bytes b \<le> maxBytes then [admitted_entry b] else [])
        \<and> files (admit 1 maxBytes (lexical_order [b, a]) empty_result)
          = (if sf_bytes b \<le> maxBytes then [admitted_entry b] else []))
   \<and> ((q = [] \<or> \<not> openai \<or> emb = EmbError \<or> (\<exists>sims. emb = EmbSims sims \<and> length sims < 2))
        \<and> sf_score a = sf_score b \<and> depth (sf_path a) = 2 \<and> depth (sf_path b) = 1 \<longrightarrow>
        map path (files (admit 1 maxBytes (rank_files blend choices q openai emb [a, b]) empty_result))
          = (if sf_bytes b \<le> maxBytes then [sf_path b] else [])
        \<and> map path (files (admit 1 maxBytes (rank_files blend choices q openai emb [b, a]) empty_result))
          = (if sf_bytes b \<le> maxBytes then [sf_path b] else []))"
proof (intro conjI)
  let ?r = "rank_files blend choices q openai emb sfs"
  show "(q = [] \<or> \<not> openai \<or> emb = EmbError \<or> (\<exists>sims. emb = EmbSims sims \<and> length sims < length sfs)) \<longrightarrow>
      (\<forall>i j. i < length ?r \<and> j < length ?r \<and> sf_score (?r ! i) = sf_score (?r ! j)
            \<and> depth (sf_path (?r ! i)) < depth (sf_path (?r ! j)) \<longrightarrow> i < j)"
  proof (intro impI allI)
    fix i j
    assume "q = [] \<or> \<not> openai \<or> emb = EmbError \<or> (\<exists>sims. emb = EmbSims sims \<and> length sims < length sfs)"
    then obtain xs where r: "?r = lexical_order xs"
      using rank_files_lexical by blast
    assume "i < length ?r \<and> j < length ?r \<and> sf_score (?r ! i) = sf_score (?r ! j)
            \<and> depth (sf_path (?r ! i)) < depth (sf_path (?r ! j))"
    then show "i < j" unfolding r using lexical_positions[of i xs j] by blast
  qed
next
  show "sf_score a = sf_score b \<and> depth (sf_path a) = 2 \<and> depth (sf_path b) = 1 \<longrightarrow>
        files (admit 1 maxBytes (lexical_order [a, b]) empty_result)
          = (if sf_bytes b \<le> maxBytes then [admitted_entry b] else [])
        \<and> files (admit 1 maxBytes (lexical_order [b, a]) empty_result)
          = (if sf_bytes b \<le> maxBytes then [admitted_entry b] else [])"
  proof (intro impI conjI)
    assume h: "sf_score a = sf_score b \<and> depth (sf_path a) = 2 \<and> depth (sf_path b) = 1"
    then have o: "lexical_order [a, b] = [b, a]" "lexical_order [b, a] = [b, a]"
      using lexical_pair[of a b] by auto
    show "files (admit 1 maxBytes (lexical_order [a, b]) empty_result)
          = (if sf_bytes b \<le> maxBytes then [admitted_entry b] else [])"
      unfolding o by (rule admit_one)
    show "files (admit 1 maxBytes (lexical_order [b, a]) empty_result)
          = (if sf_bytes b \<le> maxBytes then [admitted_entry b] else [])"
      unfolding o by (rule admit_one)
  qed
next
  show "(q = [] \<or> \<not> openai \<or> emb = EmbError \<or> (\<exists>sims. emb = EmbSims sims \<and> length sims < 2))
        \<and> sf_score a = sf_score b \<and> depth (sf_path a) = 2 \<and> depth (sf_path b) = 1 \<longrightarrow>
        map path (files (admit 1 maxBytes (rank_files blend choices q openai emb [a, b]) empty_result))
          = (if sf_bytes b \<le> maxBytes then [sf_path b] else [])
        \<and> map path (files (admit 1 maxBytes (rank_files blend choices q openai emb [b, a]) empty_result))
          = (if sf_bytes b \<le> maxBytes then [sf_path b] else [])"
  proof (intro impI conjI)
    assume h: "(q = [] \<or> \<not> openai \<or> emb = EmbError \<or> (\<exists>sims. emb = EmbSims sims \<and> length sims < 2))
        \<and> sf_score a = sf_score b \<and> depth (sf_path a) = 2 \<and> depth (sf_path b) = 1"
    then have m: "q = [] \<or> \<not> openai \<or> emb = EmbError \<or> (\<exists>sims. emb = EmbSims sims \<and> length sims < length [a, b])"
      "q = [] \<or> \<not> openai \<or> emb = EmbError \<or> (\<exists>sims. emb = EmbSims sims \<and> length sims < length [b, a])"
      by auto
    have d: "sf_score a = sf_score b" "depth (sf_path a) = 2" "depth (sf_path b) = 1"
      using h by auto
    obtain xs where xs: "rank_files blend choices q openai emb [a, b] = lexical_order xs"
      "list_all2 same_file xs [a, b]"
      using rank_files_lexical[OF m(1)] by blast
    show "map path (files (admit 1 maxBytes (rank_files blend choices q openai emb [a, b]) empty_result))
          = (if sf_bytes b \<le> maxBytes then [sf_path b] else [])"
      unfolding xs(1) using xs(2) by (intro lexical_pair_paths[OF d]) simp
    obtain ys where ys: "rank_files blend choices q openai emb [b, a] = lexical_order ys"
      "list_all2 same_file ys [b, a]"
      using rank_files_lexical[OF m(2)] by blast
    show "map path (files (admit 1 maxBytes (rank_files blend choices q openai emb [b, a]) empty_result))
          = (if sf_bytes b \<le> maxBytes then [sf_path b] else [])"
      unfolding ys(1) using ys(2) by (intro lexical_pair_paths[OF d]) simp
  qed
qed

subsection \<open>Evaluation of the examples and witnesses\<close>

lemma ex_manifest_eval:
  "fetchRepoTreeAndFiles ex_env_manifest ex_one_file [] =
     \<lparr> files = [\<lparr> path = ''main.js'', content = ''console.log(1)'', truncated = Some False,
                   bytes = Some 14, score = Some (Finite 0) \<rparr>,
                 \<lparr> path = ''package.json'', content = ''{}'', truncated = None, bytes = None, score = None \<rparr>],
        totalBytes = 16 \<rparr>"
  by (simp add: selection_defs string_defs ex_env_manifest_def ex_one_file_def ex_tree_main_def)

text \<open>
  The file count of C2 as stated fails: with \<open>maxFiles = 1\<close>, one candidate and a
  \<^verbatim>\<open>package.json\<close> at the root, the result holds two files.
\<close>

theorem budget_file_count_counterexample:
  "\<not> length (files (fetchRepoTreeAndFiles ex_env_manifest ex_one_file []))
       \<le> or_default (opt_maxFiles ex_one_file) 50"
  unfolding ex_manifest_eval by (simp add: ex_one_file_def)

lemma ex_two_ranked:
  "ranked ex_env_two ex_tiny_budget [] ex_tree_two = [ex_top, ex_deep]"
  by (simp add: selection_defs string_defs ex_env_two_def ex_tiny_budget_def ex_tree_two_def ex_top_def ex_deep_def)

lemma ex_why_keywords: "keywords_of ex_why = []"
  by (simp add: keywords_of_def ex_why_def string_defs)

lemma ex_rerank_scoring:
  "fst (scoring ex_env_rerank ex_one_file ex_why ex_tree_two) = [ex_top, ex_deep]"
  unfolding scoring_def ex_why_keywords
  by (simp add: topCandidates_def filteredCandidates_def is_candidate_def keep_candidate_def exts_def
      skipPatterns_def truncate_def lexical_score_def score_item_def sort_cmp_def cmp_structural_def
      empty_result_def Let_def string_defs ex_env_rerank_def ex_one_file_def ex_tree_two_def
      ex_top_def ex_deep_def)

lemma ex_rerank_ranked:
  "ranked ex_env_rerank ex_one_file ex_why ex_tree_two = [ex_deep_ranked, ex_top_ranked]"
proof -
  have e: "env_blend ex_env_rerank = ex_blend" "env_choices ex_env_rerank = []"
    "env_openai ex_env_rerank = True" "env_embed ex_env_rerank = EmbSims [Finite (1 / 4), Finite (1 / 2)]"
    by (simp_all add: ex_env_rerank_def)
  show ?thesis
    unfolding ranked_def ex_rerank_scoring e
    by (simp add: rank_files_def semantic_order_def consistent_on_def sort_cmp_def cmp_semantic_def finalScore_of_def
        annotate_def ex_blend_def ex_why_def ex_top_def ex_deep_def ex_deep_ranked_def ex_top_ranked_def
        depth_def)
qed

lemma ex_rerank_eval:
  "files (fetchRepoTreeAndFiles ex_env_rerank ex_one_file ex_why) = [ex_deep_entry]"
proof -
  have t: "env_tree ex_env_rerank = Some ex_tree_two" "env_fetch_dep ex_env_rerank = (\<lambda>p. None)"
    by (simp_all add: ex_env_rerank_def)
  have c: "or_default (opt_maxFiles ex_one_file) 50 = 1" "or_default (opt_maxBytes ex_one_file) 200000 = 200000"
    by (simp_all add: ex_one_file_def)
  have a: "admitted_entry ex_deep_ranked = ex_deep_entry"
    by (simp add: admitted_entry_def reported_score_def number_truthy_def truncation_marker_def
        endsWith_def nl_def ex_deep_ranked_def ex_deep_entry_def Let_def)
  have b: "sf_bytes ex_deep_ranked \<le> 200000" by (simp add: ex_deep_ranked_def)
  have r: "fetchRepoTreeAndFiles ex_env_rerank ex_one_file ex_why
           = add_deps 200000 (\<lambda>p. None) depFiles
               (admit 1 200000 (ranked ex_env_rerank ex_one_file ex_why ex_tree_two) empty_result)"
    by (simp add: fetchRepoTreeAndFiles_def Let_def t c)
  have d: "files (add_deps 200000 (\<lambda>p. None) depFiles res) = files res" for res
    by (simp add: depFiles_def)
  have "files (admit 1 200000 [ex_deep_ranked, ex_top_ranked] empty_result) = [ex_deep_entry]"
    unfolding admit_one a using b by simp
  then show ?thesis
    unfolding r d ex_rerank_ranked .
qed

text \<open>
  C8 as stated fails in two ways. With \<open>maxFiles = 1\<close>, \<open>maxBytes = 5\<close> and two candidates
  of 10 bytes and score 0 at depths 1 and 2, the ranked order puts the depth-1 file first and
  the selector admits no file. With \<open>maxFiles = 1\<close>, the default byte limit, a client and
  the same two candidates of score 0, of which the deeper has the higher cosine, the
  re-ranked order puts the depth-2 file first and the selector admits it.
\<close>

theorem shallower_not_admitted_counterexample:
  "or_default (opt_maxFiles ex_tiny_budget) 50 = 1
   \<and> ranked ex_env_two ex_tiny_budget [] ex_tree_two = [ex_top, ex_deep]
   \<and> sf_score ex_top = sf_score ex_deep
   \<and> depth (sf_path ex_top) = 1 \<and> depth (sf_path ex_deep) = 2
   \<and> files (fetchRepoTreeAndFiles ex_env_two ex_tiny_budget []) = []
   \<and> or_default (opt_maxFiles ex_one_file) 50 = 1
   \<and> ranked ex_env_rerank ex_one_file ex_why ex_tree_two = [ex_deep_ranked, ex_top_ranked]
   \<and> sf_score ex_deep_ranked = sf_score ex_top_ranked
   \<and> depth (sf_path ex_deep_ranked) = 2 \<and> depth (sf_path ex_top_ranked) = 1
   \<and> files (fetchRepoTreeAndFiles ex_env_rerank ex_one_file ex_why) = [ex_deep_entry]
   \<and> path ex_deep_entry = sf_path ex_deep_ranked"
proof -
  have t: "env_tree ex_env_two = Some ex_tree_two" "env_fetch_dep ex_env_two = (\<lambda>p. None)"
    by (simp_all add: ex_env_two_def)
  have c: "or_default (opt_maxFiles ex_tiny_budget) 50 = 1" "or_default (opt_maxBytes ex_tiny_budget) 200000 = 5"
    by (simp_all add: ex_tiny_budget_def)
  have f: "files (fetchRepoTreeAndFiles ex_env_two ex_tiny_budget []) = []"
    unfolding fetchRepoTreeAndFiles_def Let_def
    by (simp add: t c ex_two_ranked depFiles_def empty_result_def) (simp add: ex_top_def)
  have m: "sf_score ex_top = sf_score ex_deep" "depth (sf_path ex_top) = 1" "depth (sf_path ex_deep) = 2"
    by (simp_all add: ex_top_def ex_deep_def depth_def)
  have c': "or_default (opt_maxFiles ex_one_file) 50 = 1"
    by (simp add: ex_one_file_def)
  have m': "sf_score ex_deep_ranked = sf_score ex_top_ranked" "depth (sf_path ex_deep_ranked) = 2"
    "depth (sf_path ex_top_ranked) = 1" "path ex_deep_entry = sf_path ex_deep_ranked"
    by (simp_all add: ex_top_ranked_def ex_deep_ranked_def ex_deep_entry_def depth_def)
  show ?thesis
    by (intro conjI c(1) ex_two_ranked m f c' ex_rerank_ranked m' ex_rerank_eval)
qed

theorem budget_invariant_witness:
  "totalBytes (fetchRepoTreeAndFiles ex_env_manifest ex_one_file []) = 16
   \<and> or_default (opt_maxBytes ex_one_file) 200000 = 200000
   \<and> length (files (fetchRepoTreeAndFiles ex_env_manifest ex_one_file [])) = 2
   \<and> or_default (opt_maxFiles ex_one_file) 50 = 1"
  using budget_invariant[of ex_env_manifest ex_one_file "[]"]
  unfolding ex_manifest_eval by (simp add: ex_one_file_def)

theorem scoring_window_witness:
  "env_tree ex_env_manifest = Some ex_tree_main
   \<and> requested_paths ex_env_manifest ex_one_file [] = [''main.js'']
   \<and> map t_path (take 500 (filteredCandidates (env_rules ex_env_manifest) ex_tree_main)) = [''main.js'']
   \<and> map path (files (fetchRepoTreeAndFiles ex_env_manifest ex_one_file [])) = [''main.js'', ''package.json'']
   \<and> ''package.json'' \<in> set depFiles"
proof -
  have t: "env_tree ex_env_manifest = Some ex_tree_main"
    by (simp add: ex_env_manifest_def)
  have w: "map t_path (take 500 (filteredCandidates (env_rules ex_env_manifest) ex_tree_main)) = [''main.js'']"
    by (simp add: filteredCandidates_def is_candidate_def keep_candidate_def
      exts_def skipPatterns_def sort_cmp_def ex_env_manifest_def ex_tree_main_def endsWith_def)
  have "set (requested_paths ex_env_manifest ex_one_file []) \<subseteq> {''main.js''}"
    using scoring_window[OF t, of ex_one_file "[]"] unfolding w by simp
  moreover have "requested_paths ex_env_manifest ex_one_file [] \<noteq> []"
    by (simp add: requested_paths_def t scoring_def topCandidates_def filteredCandidates_def is_candidate_def keep_candidate_def
      exts_def skipPatterns_def sort_cmp_def ex_env_manifest_def ex_tree_main_def endsWith_def empty_result_def ex_one_file_def)
  moreover have "length (requested_paths ex_env_manifest ex_one_file []) \<le> 1"
    by (simp add: requested_paths_def t scoring_def topCandidates_def filteredCandidates_def is_candidate_def keep_candidate_def
      exts_def skipPatterns_def sort_cmp_def ex_env_manifest_def ex_tree_main_def endsWith_def empty_result_def ex_one_file_def)
  ultimately have r: "requested_paths ex_env_manifest ex_one_file [] = [''main.js'']"
    by (cases "requested_paths ex_env_manifest ex_one_file []") auto
  have p: "map path (files (fetchRepoTreeAndFiles ex_env_manifest ex_one_file [])) = [''main.js'', ''package.json'']"
    unfolding ex_manifest_eval by simp
  have d: "''package.json'' \<in> set depFiles" by (simp add: depFiles_def)
  show ?thesis using t r w p d by blast
qed

lemma count_from_numeral [simp]:
  "count_from (numeral n) k (c # s) = count_from (pred_numeral n) k s"
  by (simp add: numeral_eq_Suc)

lemma ex_auth_keywords: "keywords_of ex_auth_question = [''where'', ''auth'', ''token'', ''haha'']"
  by (simp add: keywords_of_def ex_auth_question_def string_defs char_of_eq_iff)

lemma ex_auth_window: "topCandidates ex_env_auth ex_tree_auth = [ex_item_empty, ex_item_auth]"
  by (simp add: topCandidates_def filteredCandidates_def is_candidate_def keep_candidate_def
      exts_def skipPatterns_def sort_cmp_def cmp_structural_def depth_def ex_env_auth_def ex_tree_auth_def
      ex_item_auth_def ex_item_empty_def endsWith_def)

lemma ex_auth_scoring:
  "fst (scoring ex_env_auth ex_defaults ex_auth_question ex_tree_auth) =
    [score_item (keywords_of ex_auth_question) ex_item_empty [],
     score_item (keywords_of ex_auth_question) ex_item_auth ex_auth_text]"
proof -
  have f: "env_fetch ex_env_auth (t_path ex_item_empty) = Some ex_response_empty"
    "env_fetch ex_env_auth (t_path ex_item_auth) = Some ex_response_auth"
    by (simp_all add: ex_env_auth_def ex_item_empty_def ex_item_auth_def)
  have c: "fr_content ex_response_empty \<noteq> []" "fr_content ex_response_auth \<noteq> []"
    "fr_text ex_response_empty = []" "fr_text ex_response_auth = ex_auth_text"
    by (simp_all add: ex_response_empty_def ex_response_auth_def)
  show ?thesis
    unfolding scoring_def ex_auth_window
    by (simp add: f c empty_result_def ex_defaults_def)
qed

lemma ex_auth_lower_eval: "toLowerCase (truncate ex_auth_text) = ex_auth_lower"
  by (simp add: truncate_def ex_auth_text_def ex_auth_lower_def toLowerCase_def to_lower_def code_unit_def char_of_eq_iff)

lemma ex_auth_counts:
  "count_matches ''where'' ex_auth_lower = 0" "count_matches ''auth'' ex_auth_lower = 25"
  "count_matches ''token'' ex_auth_lower = 2" "count_matches ''haha'' ex_auth_lower = 2"
  by (simp_all add: count_matches_def ex_auth_lower_def)

theorem lexical_score_exact_witness:
  "ex_item_auth \<in> set (topCandidates ex_env_auth ex_tree_auth)
   \<and> env_fetch ex_env_auth (t_path ex_item_auth) = Some ex_response_auth
   \<and> fr_content ex_response_auth \<noteq> []
   \<and> ex_item_empty \<in> set (topCandidates ex_env_auth ex_tree_auth)
   \<and> env_fetch ex_env_auth (t_path ex_item_empty) = Some ex_response_empty
   \<and> fr_content ex_response_empty \<noteq> [] \<and> fr_text ex_response_empty = []
   \<and> keywords_of ex_auth_question = [''where'', ''auth'', ''token'', ''haha'']
   \<and> toLowerCase (t_path ex_item_auth) = ''auth/token.js''
   \<and> toLowerCase (truncate (fr_text ex_response_auth)) = ex_auth_lower
   \<and> count_matches ''where'' ex_auth_lower = 0 \<and> count_matches ''auth'' ex_auth_lower = 25
   \<and> count_matches ''token'' ex_auth_lower = 2 \<and> count_matches ''haha'' ex_auth_lower = 2
   \<and> map sf_path (fst (scoring ex_env_auth ex_defaults ex_auth_question ex_tree_auth))
       = [''empty.md'', ''Auth/Token.js'']
   \<and> map sf_content (fst (scoring ex_env_auth ex_defaults ex_auth_question ex_tree_auth))
       = [[], ex_auth_text]
   \<and> map sf_score (fst (scoring ex_env_auth ex_defaults ex_auth_question ex_tree_auth)) = [0, 44]"
proof -
  let ?A = "score_item (keywords_of ex_auth_question) ex_item_auth ex_auth_text"
  let ?E = "score_item (keywords_of ex_auth_question) ex_item_empty []"
  have i: "ex_item_auth \<in> set (topCandidates ex_env_auth ex_tree_auth)"
    "ex_item_empty \<in> set (topCandidates ex_env_auth ex_tree_auth)"
    unfolding ex_auth_window by simp_all
  have f: "env_fetch ex_env_auth (t_path ex_item_auth) = Some ex_response_auth"
    "env_fetch ex_env_auth (t_path ex_item_empty) = Some ex_response_empty"
    by (simp_all add: ex_env_auth_def ex_item_empty_def ex_item_auth_def)
  have n: "fr_content ex_response_auth \<noteq> []" "fr_content ex_response_empty \<noteq> []"
    by (simp_all add: ex_response_empty_def ex_response_auth_def)
  have t: "fr_text ex_response_empty = []" "fr_text ex_response_auth = ex_auth_text"
    by (simp_all add: ex_response_empty_def ex_response_auth_def)
  have lp: "toLowerCase (t_path ex_item_auth) = ''auth/token.js''"
    "toLowerCase (t_path ex_item_empty) = ''empty.md''"
    by (simp_all add: ex_item_auth_def ex_item_empty_def toLowerCase_def to_lower_def code_unit_def char_of_eq_iff)
  have lc: "toLowerCase (truncate (fr_text ex_response_auth)) = ex_auth_lower"
    unfolding t by (rule ex_auth_lower_eval)
  have le: "toLowerCase (truncate (fr_text ex_response_empty)) = []"
    unfolding t by (simp add: truncate_def toLowerCase_def)
  have sp: "\<not> sublist ''where'' ''auth/token.js''" "sublist ''auth'' ''auth/token.js''"
    "sublist ''token'' ''auth/token.js''" "\<not> sublist ''haha'' ''auth/token.js''"
    "\<not> sublist ''where'' ''empty.md''" "\<not> sublist ''auth'' ''empty.md''"
    "\<not> sublist ''token'' ''empty.md''" "\<not> sublist ''haha'' ''empty.md''"
    unfolding includes_str_sublist[symmetric] by simp_all
  have ce: "count_matches k [] = 0" if "k \<noteq> []" for k
    using that by (simp add: count_matches_def)
  obtain g where g: "g \<in> set (fst (scoring ex_env_auth ex_defaults ex_auth_question ex_tree_auth))"
    "sf_path g = t_path ex_item_auth" "sf_content g = truncate (fr_text ex_response_auth)"
    "sf_score g =
        (\<Sum>k\<leftarrow>keywords_of ex_auth_question. if sublist k (toLowerCase (t_path ex_item_auth)) then 10 else 0)
      + (\<Sum>k\<leftarrow>keywords_of ex_auth_question. min (count_matches k (toLowerCase (truncate (fr_text ex_response_auth)))) 20)"
    using conjunct1[OF lexical_score_exact[OF i(1) f(1) n(1), of ex_defaults ex_auth_question]]
    by (elim bexE conjE)
  obtain h where h: "h \<in> set (fst (scoring ex_env_auth ex_defaults ex_auth_question ex_tree_auth))"
    "sf_path h = t_path ex_item_empty" "sf_content h = truncate (fr_text ex_response_empty)"
    "sf_score h =
        (\<Sum>k\<leftarrow>keywords_of ex_auth_question. if sublist k (toLowerCase (t_path ex_item_empty)) then 10 else 0)
      + (\<Sum>k\<leftarrow>keywords_of ex_auth_question. min (count_matches k (toLowerCase (truncate (fr_text ex_response_empty)))) 20)"
    using conjunct1[OF lexical_score_exact[OF i(2) f(2) n(2), of ex_defaults ex_auth_question]]
    by (elim bexE conjE)
  have vg: "sf_score g = 44"
    unfolding g(4) ex_auth_keywords lp lc list.map sum_list.Cons sum_list.Nil
    by (simp add: sp ex_auth_counts)
  have vh: "sf_score h = 0"
    unfolding h(4) ex_auth_keywords lp le list.map sum_list.Cons sum_list.Nil
    by (simp add: sp ce)
  have pa: "sf_path ?A = ''Auth/Token.js''" "sf_path ?E = ''empty.md''"
    "sf_path g = ''Auth/Token.js''" "sf_path h = ''empty.md''"
    unfolding g(2) h(2) by (simp_all add: score_item_def Let_def ex_item_auth_def ex_item_empty_def)
  have "g \<in> {?E, ?A}" "h \<in> {?E, ?A}"
    using g(1) h(1) unfolding ex_auth_scoring by simp_all
  then have gh: "g = ?A" "h = ?E"
    using pa by auto
  have sc: "fst (scoring ex_env_auth ex_defaults ex_auth_question ex_tree_auth) = [h, g]"
    unfolding ex_auth_scoring gh ..
  have m1: "map sf_path (fst (scoring ex_env_auth ex_defaults ex_auth_question ex_tree_auth))
       = [''empty.md'', ''Auth/Token.js'']"
    unfolding sc by (simp add: pa)
  have m2: "map sf_content (fst (scoring ex_env_auth ex_defaults ex_auth_question ex_tree_auth))
       = [[], ex_auth_text]"
    unfolding sc by (simp add: g(3) h(3) t truncate_def ex_auth_text_def)
  have m3: "map sf_score (fst (scoring ex_env_auth ex_defaults ex_auth_question ex_tree_auth)) = [0, 44]"
    unfolding sc by (simp add: vg vh)
  show ?thesis
    by (intro conjI i f n t(1) ex_auth_keywords lp(1) lc ex_auth_counts m1 m2 m3)
qed

theorem shallower_first_witness:
  "rank_files ex_blend [] ex_why False EmbError [ex_deep, ex_top] = [ex_top, ex_deep]
   \<and> sf_score ex_deep = sf_score ex_top \<and> depth (sf_path ex_deep) = 2 \<and> depth (sf_path ex_top) = 1
   \<and> sf_bytes ex_top \<le> 200000
   \<and> files (admit 1 200000 (lexical_order [ex_deep, ex_top]) empty_result) = [admitted_entry ex_top]
   \<and> map path (files (admit 1 200000 (rank_files ex_blend [] ex_why False EmbError [ex_deep, ex_top])
         empty_result)) = [''top.js'']
   \<and> length [Finite (1 / 2)] < length [ex_deep, ex_top]
   \<and> map path (files (admit 1 200000
         (rank_files ex_blend [] ex_why True (EmbSims [Finite (1 / 2)]) [ex_deep, ex_top]) empty_result))
       = [''top.js'']"
proof -
  note t = shallower_first[where sfs = "[ex_deep, ex_top]" and a = ex_deep and b = ex_top
      and maxBytes = 200000 and q = ex_why and blend = ex_blend and choices = "[]"
      and openai = False and emb = EmbError]
  note u = shallower_first[where sfs = "[ex_deep, ex_top]" and a = ex_deep and b = ex_top
      and maxBytes = 200000 and q = ex_why and blend = ex_blend and choices = "[]"
      and openai = True and emb = "EmbSims [Finite (1 / 2)]"]
  have h: "sf_score ex_deep = sf_score ex_top \<and> depth (sf_path ex_deep) = 2 \<and> depth (sf_path ex_top) = 1"
    by (simp add: ex_deep_def ex_top_def depth_def)
  have b: "sf_bytes ex_top \<le> 200000" by (simp add: ex_top_def)
  have p: "sf_path ex_top = ''top.js''" by (simp add: ex_top_def)
  have r: "rank_files ex_blend [] ex_why False EmbError [ex_deep, ex_top] = [ex_top, ex_deep]"
    by (simp add: rank_files_def lexical_order_def sort_cmp_def cmp_lexical_def ex_deep_def ex_top_def depth_def)
  have "files (admit 1 200000 (lexical_order [ex_deep, ex_top]) empty_result)
          = (if sf_bytes ex_top \<le> 200000 then [admitted_entry ex_top] else [])"
    using t h by blast
  then have a: "files (admit 1 200000 (lexical_order [ex_deep, ex_top]) empty_result) = [admitted_entry ex_top]"
    using b by simp
  have "map path (files (admit 1 200000 (rank_files ex_blend [] ex_why False EmbError [ex_deep, ex_top])
         empty_result)) = (if sf_bytes ex_top \<le> 200000 then [sf_path ex_top] else [])"
    using t h by blast
  then have c: "map path (files (admit 1 200000 (rank_files ex_blend [] ex_why False EmbError [ex_deep, ex_top])
         empty_result)) = [''top.js'']"
    using b p by simp
  have l: "length [Finite (1 / 2)] < length [ex_deep, ex_top]" by simp
  have m: "\<exists>sims. EmbSims [Finite (1 / 2)] = EmbSims sims \<and> length sims < 2"
    by (rule exI[of _ "[Finite (1 / 2)]"]) simp
  have "map path (files (admit 1 200000
         (rank_files ex_blend [] ex_why True (EmbSims [Finite (1 / 2)]) [ex_deep, ex_top]) empty_result))
       = (if sf_bytes ex_top \<le> 200000 then [sf_path ex_top] else [])"
    using u h m by blast
  then have d: "map path (files (admit 1 200000
         (rank_files ex_blend [] ex_why True (EmbSims [Finite (1 / 2)]) [ex_deep, ex_top]) empty_result))
       = [''top.js'']"
    using b p by simp
  show ?thesis
    by (intro conjI r h[THEN conjunct1] h[THEN conjunct2, THEN conjunct1] h[THEN conjunct2, THEN conjunct2]
        b a c l d)
qed

section \<open>Idempotence of the prose scrub\<close>

subsection \<open>Matches of the file-like expression stay inside runs of class characters\<close>

lemma nl_not_cls [simp]: "\<not> is_cls nl"
  by (simp add: is_cls_def nl_def)

lemma space_not_cls: "is_space c \<Longrightarrow> \<not> is_cls c"
  by (auto simp: is_cls_def is_space_def code_unit_def)

lemma file_exts_cls: "e \<in> set file_exts \<Longrightarrow> \<forall>x \<in> set e. is_cls x"
  by (auto simp: file_exts_def is_cls_def)

lemma starts_with_append_cls:
  "\<forall>x \<in> set e. is_cls x \<Longrightarrow> \<not> is_cls c \<Longrightarrow> starts_with (xs @ c # ys) e = starts_with xs e"
proof (induction xs arbitrary: e)
  case Nil
  then show ?case by (cases e) auto
next
  case (Cons x xs)
  then show ?case by (cases e) auto
qed

lemma ext_at_append: "\<not> is_cls c \<Longrightarrow> ext_at (xs @ c # ys) = ext_at xs"
  unfolding ext_at_def
  by (rule find_cong) (auto simp: starts_with_append_cls file_exts_cls)

lemma ext_at_length: "ext_at s = Some e \<Longrightarrow> length e \<le> length s"
  unfolding ext_at_def by (auto simp: find_Some_iff starts_with_prefix prefix_length_le)

lemma match_tail_append: "\<not> is_cls c \<Longrightarrow> match_tail (xs @ c # ys) = match_tail xs"
  by (induction xs) (auto simp: ext_at_append split: option.splits)

lemma match_tail_length: "match_tail s = Some n \<Longrightarrow> n \<le> length s"
  by (induction s arbitrary: n) (auto split: if_splits option.splits dest: ext_at_length)

lemma match_here_append: "\<not> is_cls c \<Longrightarrow> match_here (xs @ c # ys) = match_here xs"
  by (cases xs) (auto simp: match_tail_append)

lemma match_here_length: "match_here s = Some n \<Longrightarrow> 0 < n \<and> n \<le> length s"
  by (cases s) (auto split: if_splits dest: match_tail_length)

lemma scan_append:
  "k \<le> length xs \<Longrightarrow> \<not> is_cls c \<Longrightarrow> scan k (xs @ c # ys) = scan k xs @ scan 0 ys"
proof (induction xs arbitrary: k)
  case Nil
  then show ?case by simp
next
  case (Cons x xs)
  show ?case
  proof (cases k)
    case 0
    show ?thesis
    proof (cases "match_here (x # xs)")
      case None
      then have "match_here (x # xs @ c # ys) = None"
        using match_here_append[OF Cons.prems(2), of "x # xs" ys] by simp
      then show ?thesis using None 0 Cons.IH[of 0] Cons.prems(2) by simp
    next
      case (Some n)
      then have m: "match_here (x # xs @ c # ys) = Some n"
        using match_here_append[OF Cons.prems(2), of "x # xs" ys] by simp
      have n: "0 < n" "n \<le> Suc (length xs)"
        using match_here_length[OF Some] by simp_all
      then have "n - 1 \<le> length xs" by simp
      from Cons.IH[OF this Cons.prems(2)]
      have "scan (n - 1) (xs @ c # ys) = scan (n - 1) xs @ scan 0 ys" .
      moreover have "take n (x # xs @ c # ys) = take n (x # xs)"
        using n by (cases n) simp_all
      ultimately show ?thesis using Some m 0 by simp
    qed
  next
    case (Suc k')
    then show ?thesis using Cons by simp
  qed
qed

lemma match_all_append: "\<not> is_cls c \<Longrightarrow> match_all (xs @ c # ys) = match_all xs @ match_all ys"
  unfolding match_all_def by (simp add: scan_append)

lemma match_all_Nil [simp]: "match_all [] = []"
  by (simp add: match_all_def)

lemma match_all_Cons_other: "\<not> is_cls c \<Longrightarrow> match_all (c # ys) = match_all ys"
  using match_all_append[of c "[]" ys] by simp

lemma match_all_snoc_other: "\<not> is_cls c \<Longrightarrow> match_all (xs @ [c]) = match_all xs"
  using match_all_append[of c xs "[]"] by simp

lemma match_all_dropWhile: "(\<And>c. P c \<Longrightarrow> \<not> is_cls c) \<Longrightarrow> match_all (dropWhile P s) = match_all s"
  by (induction s) (auto simp: match_all_Cons_other)

lemma match_all_rev_dropWhile:
  "(\<And>c. P c \<Longrightarrow> \<not> is_cls c) \<Longrightarrow> match_all (rev (dropWhile P (rev s))) = match_all s"
proof (induction s rule: rev_induct)
  case Nil
  then show ?case by simp
next
  case (snoc x xs)
  then show ?case by (auto simp: match_all_snoc_other)
qed

lemma match_all_trim: "match_all (trim s) = match_all s"
  unfolding trim_def
  by (simp add: match_all_rev_dropWhile match_all_dropWhile space_not_cls)

lemma match_all_join: "match_all (join_paras ps) = concat (map match_all ps)"
  by (induction ps rule: join_paras.induct) (simp_all add: match_all_append match_all_Cons_other)

subsection \<open>The shape of a split\<close>

lemma starts_with_nl: "starts_with s [nl] \<longleftrightarrow> s \<noteq> [] \<and> hd s = nl"
  by (cases s) auto

lemma split_paras_not_Nil [simp]: "split_paras s \<noteq> []"
  by (cases s) (auto split: list.splits)

lemma hd_split_paras_nl: "\<not> starts_with s [nl] \<Longrightarrow> \<not> starts_with (hd (split_paras s)) [nl]"
  by (cases s) (auto split: list.splits)

lemma hd_split_paras_empty:
  "hd (split_paras s) = [] \<Longrightarrow> s = [] \<or> (\<exists>s'. s = nl # nl # s')"
  by (cases s) (auto split: list.splits if_splits simp: starts_with_nl neq_Nil_conv)

lemma dropWhile_nl_start: "\<not> starts_with (dropWhile (\<lambda>x. x = nl) s) [nl]"
  using hd_dropWhile[of "\<lambda>x. x = nl" s] by (auto simp: starts_with_nl)

lemma good_tail_good: "good_tail ps \<Longrightarrow> good ps"
  by (cases ps rule: good.cases) auto

lemma good_tailI:
  "good (p # ps) \<Longrightarrow> \<not> starts_with p [nl] \<Longrightarrow> (ps \<noteq> [] \<Longrightarrow> p \<noteq> []) \<Longrightarrow> good_tail (p # ps)"
  by (cases ps) auto

lemma noNN_Cons: "noNN (c # p) \<longleftrightarrow> \<not> (c = nl \<and> starts_with p [nl]) \<and> noNN p"
  by (cases p) auto

lemma good_split_paras: "good (split_paras s)"
proof (induction s rule: split_paras.induct)
  case 1
  then show ?case by simp
next
  case (2 c s)
  show ?case
  proof (cases "c = nl \<and> starts_with s [nl]")
    case True
    let ?s' = "dropWhile (\<lambda>x. x = nl) s"
    obtain p ps where sp: "split_paras ?s' = p # ps"
      by (cases "split_paras ?s'") auto
    have g: "good (p # ps)" using 2(1)[OF True] sp by simp
    have n: "\<not> starts_with p [nl]"
      using hd_split_paras_nl[OF dropWhile_nl_start, of s] sp by simp
    have e: "p \<noteq> []" if "ps \<noteq> []"
    proof
      assume "p = []"
      then have "?s' = [] \<or> (\<exists>s'. ?s' = nl # nl # s')"
        using hd_split_paras_empty[of ?s'] sp by simp
      then show False
      proof
        assume e: "?s' = []"
        have "split_paras ?s' = [[]]" by (simp only: e split_paras.simps)
        then show False using sp that by simp
      next
        assume "\<exists>s'. ?s' = nl # nl # s'"
        then show False using dropWhile_nl_start[of s] by auto
      qed
    qed
    have "good_tail (p # ps)" using good_tailI[OF g n] e by blast
    then show ?thesis using True sp by (simp add: ends_nl_def)
  next
    case False
    obtain p ps where sp: "split_paras s = p # ps"
      by (cases "split_paras s") auto
    have g: "good (p # ps)" using 2(2)[OF False] sp by simp
    have r: "split_paras (c # s) = (c # p) # ps" using False sp by simp
    have nn: "noNN (c # p)"
    proof -
      have "noNN p" using g by (cases ps) auto
      moreover have "\<not> (c = nl \<and> starts_with p [nl])"
      proof
        assume a: "c = nl \<and> starts_with p [nl]"
        then have "\<not> starts_with s [nl]" using False by simp
        from hd_split_paras_nl[OF this] show False using sp a by simp
      qed
      ultimately show ?thesis by (simp add: noNN_Cons)
    qed
    show ?thesis
    proof (cases ps)
      case Nil
      then show ?thesis using r nn by simp
    next
      case (Cons q qs)
      have "\<not> ends_nl (c # p)"
      proof (cases "p = []")
        case True
        then have "s = [] \<or> (\<exists>s'. s = nl # nl # s')"
          using hd_split_paras_empty[of s] sp by simp
        moreover have "s \<noteq> []" using sp Cons by auto
        ultimately have "starts_with s [nl]" by auto
        then have "c \<noteq> nl" using False by simp
        then show ?thesis using True by (simp add: ends_nl_def)
      next
        case False
        moreover have "\<not> ends_nl p" using g Cons by simp
        ultimately show ?thesis by (simp add: ends_nl_def)
      qed
      moreover have "good_tail (q # qs)" using g Cons by simp
      ultimately show ?thesis using r nn Cons by simp
    qed
  qed
qed

lemma good_tail_filter: "good_tail ps \<Longrightarrow> good_tail (filter P ps)"
proof (induction ps rule: good_tail.induct)
  case 1
  then show ?case by simp
next
  case (2 p)
  then show ?case by simp
next
  case (3 p q ps)
  then have t: "good_tail (filter P (q # ps))" by simp
  show ?case
  proof (cases "P p")
    case True
    then show ?thesis using 3(2) t by (cases "filter P (q # ps)") auto
  next
    case False
    then show ?thesis using t by simp
  qed
qed

lemma good_filter: "good ps \<Longrightarrow> good (filter P ps)"
proof (cases ps rule: good.cases)
  case 1
  then show ?thesis by simp
next
  case (2 p)
  assume "good ps"
  then show ?thesis using 2 by simp
next
  case (3 p q qs)
  assume g: "good ps"
  then have t: "good_tail (filter P (q # qs))" using 3 by (simp add: good_tail_filter del: filter.simps)
  show ?thesis
  proof (cases "P p")
    case True
    then show ?thesis using g 3 t by (cases "filter P (q # qs)") auto
  next
    case False
    then show ?thesis using 3 t by (simp add: good_tail_good del: good_tail.simps)
  qed
qed

subsection \<open>Splitting a join\<close>

lemma split_paras_single: "noNN p \<Longrightarrow> split_paras p = [p]"
  by (induction p) (auto simp: noNN_Cons)

lemma split_paras_sep:
  "noNN p \<Longrightarrow> \<not> ends_nl p \<Longrightarrow> \<not> starts_with r [nl] \<Longrightarrow>
   split_paras (p @ nl # nl # r) = p # split_paras r"
proof (induction p)
  case Nil
  have "dropWhile (\<lambda>x. x = nl) r = r"
    using Nil(3) by (cases r) auto
  then show ?case by simp
next
  case (Cons c p)
  have c: "\<not> (c = nl \<and> starts_with (p @ nl # nl # r) [nl])"
  proof
    assume a: "c = nl \<and> starts_with (p @ nl # nl # r) [nl]"
    then have "p \<noteq> []" using Cons.prems(2) by (auto simp: ends_nl_def)
    then have "starts_with p [nl]" using a by (cases p) auto
    then show False using a Cons.prems(1) by (simp add: noNN_Cons)
  qed
  have "noNN p" using Cons.prems(1) by (simp add: noNN_Cons)
  moreover have "\<not> ends_nl p" using Cons.prems(2) by (auto simp: ends_nl_def)
  ultimately have "split_paras (p @ nl # nl # r) = p # split_paras r"
    using Cons.IH Cons.prems(3) by simp
  then show ?case using c by simp
qed

lemma join_good_tail_start: "good_tail (q # ps) \<Longrightarrow> \<not> starts_with (join_paras (q # ps)) [nl]"
  by (cases ps) (auto simp: starts_with_nl)

lemma split_join: "good ps \<Longrightarrow> ps \<noteq> [] \<Longrightarrow> split_paras (join_paras ps) = ps"
proof (induction ps rule: join_paras.induct)
  case 1
  then show ?case by simp
next
  case (2 p)
  then show ?case by (simp add: split_paras_single)
next
  case (3 p q ps)
  have gt: "good_tail (q # ps)" using 3(2) by simp
  have "split_paras (join_paras (q # ps)) = q # ps"
    by (rule 3(1)[OF good_tail_good[OF gt]]) simp
  moreover have "\<not> starts_with (join_paras (q # ps)) [nl]"
    by (rule join_good_tail_start[OF gt])
  moreover have "noNN p" "\<not> ends_nl p" using 3(2) by simp_all
  ultimately show ?case
    using split_paras_sep[of p "join_paras (q # ps)"] by simp
qed

subsection \<open>The matches of a text are those of its paragraphs\<close>

lemma split_paras_decomp:
  "\<exists>r. s = hd (split_paras s) @ r \<and> (r = [] \<or> hd r = nl)
       \<and> match_all r = concat (map match_all (tl (split_paras s)))"
proof (induction s rule: split_paras.induct)
  case 1
  then show ?case by simp
next
  case (2 c s)
  show ?case
  proof (cases "c = nl \<and> starts_with s [nl]")
    case True
    let ?s' = "dropWhile (\<lambda>x. x = nl) s"
    obtain r where r: "?s' = hd (split_paras ?s') @ r" "r = [] \<or> hd r = nl"
      "match_all r = concat (map match_all (tl (split_paras ?s')))"
      using 2(1)[OF True] by blast
    have "match_all ?s' = match_all (hd (split_paras ?s')) @ match_all r"
    proof (cases r)
      case Nil
      then show ?thesis using r(1) by simp
    next
      case (Cons x xs)
      then have "x = nl" using r(2) by simp
      then have "match_all (hd (split_paras ?s') @ r) = match_all (hd (split_paras ?s')) @ match_all xs"
        using Cons by (simp add: match_all_append)
      moreover have "match_all r = match_all xs"
        using Cons \<open>x = nl\<close> by (simp add: match_all_Cons_other)
      ultimately show ?thesis using r(1) by simp
    qed
    also have "\<dots> = concat (map match_all (split_paras ?s'))"
      using r(3) by (cases "split_paras ?s'") auto
    finally have m: "match_all ?s' = concat (map match_all (split_paras ?s'))" .
    have "match_all (c # s) = match_all s"
      using True by (simp add: match_all_Cons_other)
    also have "\<dots> = match_all ?s'"
      by (rule match_all_dropWhile[symmetric]) simp
    finally have "match_all (c # s) = concat (map match_all (split_paras ?s'))"
      using m by simp
    then show ?thesis using True by simp
  next
    case False
    obtain r where r: "s = hd (split_paras s) @ r" "r = [] \<or> hd r = nl"
      "match_all r = concat (map match_all (tl (split_paras s)))"
      using 2(2)[OF False] by blast
    obtain p ps where sp: "split_paras s = p # ps"
      by (cases "split_paras s") auto
    have e: "split_paras (c # s) = (c # p) # ps"
      using False sp by simp
    have "c # s = hd (split_paras (c # s)) @ r"
      unfolding e using sp r(1) by simp
    moreover have "match_all r = concat (map match_all (tl (split_paras (c # s))))"
      unfolding e using sp r(3) by simp
    ultimately show ?thesis using r(2) by blast
  qed
qed

lemma match_all_split: "match_all s = concat (map match_all (split_paras s))"
proof -
  obtain r where r: "s = hd (split_paras s) @ r" "r = [] \<or> hd r = nl"
      "match_all r = concat (map match_all (tl (split_paras s)))"
    using split_paras_decomp by blast
  have "match_all (hd (split_paras s) @ r) = match_all (hd (split_paras s)) @ match_all r"
  proof (cases r)
    case Nil
    then show ?thesis by simp
  next
    case (Cons x xs)
    then have "x = nl" using r(2) by simp
    then show ?thesis using Cons by (simp add: match_all_append match_all_Cons_other)
  qed
  then have "match_all s = match_all (hd (split_paras s)) @ match_all r"
    using r(1) by simp
  then show ?thesis
    using r(3) by (cases "split_paras s") auto
qed

subsection \<open>Trimming\<close>

lemma trim_ltrim_rtrim: "trim s = rtrim (ltrim s)"
  by (simp add: trim_def ltrim_def rtrim_def)

lemma is_space_nl [simp]: "is_space nl"
  by (simp add: is_space_def nl_def code_unit_def)

lemma ltrim_all_space: "list_all is_space p \<Longrightarrow> ltrim p = []"
  by (simp add: ltrim_def list_all_iff)

lemma rtrim_all_space: "list_all is_space p \<Longrightarrow> rtrim p = []"
  by (simp add: rtrim_def list_all_iff)

lemma ltrim_append:
  "ltrim (a @ b) = (if list_all is_space a then ltrim b else ltrim a @ b)"
  unfolding ltrim_def
  by (auto simp: list_all_iff dropWhile_append1 dropWhile_append2)

lemma rtrim_append:
  "rtrim (a @ b) = (if list_all is_space b then rtrim a else a @ rtrim b)"
proof (cases "list_all is_space b")
  case True
  have "dropWhile is_space (rev b @ rev a) = dropWhile is_space (rev a)"
    by (rule dropWhile_append2) (use True in \<open>auto simp: list_all_iff\<close>)
  then show ?thesis using True by (simp add: rtrim_def)
next
  case False
  then obtain x where "x \<in> set (rev b)" "\<not> is_space x"
    by (auto simp: list_all_iff)
  then have "dropWhile is_space (rev b @ rev a) = dropWhile is_space (rev b) @ rev a"
    by (rule dropWhile_append1)
  then show ?thesis using False by (simp add: rtrim_def)
qed

lemma rtrim_decomp: "\<exists>w. p = rtrim p @ w \<and> list_all is_space w"
proof -
  have "p = rtrim p @ rev (takeWhile is_space (rev p))"
    unfolding rtrim_def by (metis rev_append rev_rev_ident takeWhile_dropWhile_id)
  moreover have "list_all is_space (rev (takeWhile is_space (rev p)))"
    by (auto simp: list_all_iff dest: set_takeWhileD)
  ultimately show ?thesis by blast
qed

lemma rtrim_all_space_Nil: "list_all is_space (rtrim p) \<Longrightarrow> rtrim p = []"
proof (rule ccontr)
  assume a: "list_all is_space (rtrim p)" and n: "rtrim p \<noteq> []"
  then have d: "dropWhile is_space (rev p) \<noteq> []" by (simp add: rtrim_def)
  then have "\<not> is_space (hd (dropWhile is_space (rev p)))" by (rule hd_dropWhile)
  moreover have "hd (dropWhile is_space (rev p)) \<in> set (rtrim p)"
    using d by (simp add: rtrim_def)
  ultimately show False using a by (simp add: list_all_iff)
qed

lemma trim_ltrim: "trim (ltrim p) = trim p"
  by (simp add: trim_def ltrim_def)

lemma trim_rtrim: "trim (rtrim p) = trim p"
proof -
  obtain w where w: "p = rtrim p @ w" "list_all is_space w"
    using rtrim_decomp by blast
  show ?thesis
  proof (cases "list_all is_space (rtrim p)")
    case True
    then have e: "rtrim p = []" by (rule rtrim_all_space_Nil)
    then have "p = w" using w(1) by simp
    then have l: "ltrim p = []" using w(2) by (simp add: ltrim_all_space)
    have "ltrim [] = []" by (simp add: ltrim_def)
    then show ?thesis unfolding trim_ltrim_rtrim e l by simp
  next
    case False
    have "ltrim p = ltrim (rtrim p @ w)" using w(1) by simp
    also have "\<dots> = ltrim (rtrim p) @ w" using False by (simp add: ltrim_append)
    finally have "rtrim (ltrim p) = rtrim (ltrim (rtrim p))"
      using w(2) by (simp add: rtrim_append)
    then show ?thesis by (simp add: trim_ltrim_rtrim)
  qed
qed

lemma trim_trim: "trim (trim p) = trim p"
  using trim_rtrim[of "ltrim p"] by (simp add: trim_ltrim_rtrim[of p] trim_ltrim)

lemma sublist_ltrim: "sublist (ltrim p) p"
  unfolding ltrim_def by (rule suffix_imp_sublist[OF suffix_dropWhile])

lemma sublist_rtrim: "sublist (rtrim p) p"
  unfolding rtrim_def sublist_rev_left by (rule suffix_imp_sublist[OF suffix_dropWhile])

subsection \<open>Trimming a join\<close>

lemma join_paras_Cons: "ps \<noteq> [] \<Longrightarrow> join_paras (p # ps) = p @ nl # nl # join_paras ps"
  by (cases ps) auto

lemma all_space_join: "list_all is_space (join_paras ps) \<longleftrightarrow> (\<forall>p \<in> set ps. list_all is_space p)"
  by (induction ps rule: join_paras.induct) (auto simp: list_all_iff)

lemma rtrim_list_Nil: "rtrim_list ps = [] \<longleftrightarrow> (\<forall>p \<in> set ps. list_all is_space p)"
  by (induction ps) (auto split: list.splits)

lemma ltrim_join: "ltrim (join_paras ps) = join_paras (ltrim_list ps)"
proof (induction ps rule: join_paras.induct)
  case 1
  then show ?case by (simp add: ltrim_def)
next
  case (2 p)
  then show ?case by (simp add: ltrim_all_space)
next
  case (3 p q ps)
  have "ltrim (nl # nl # join_paras (q # ps)) = ltrim (join_paras (q # ps))"
    by (simp add: ltrim_def)
  then show ?case using 3 by (simp add: ltrim_append)
qed

lemma rtrim_join: "rtrim (join_paras ps) = join_paras (rtrim_list ps)"
proof (induction ps rule: join_paras.induct)
  case 1
  then show ?case by (simp add: rtrim_def)
next
  case (2 p)
  then show ?case by (simp add: rtrim_all_space)
next
  case (3 p q ps)
  let ?r = "join_paras (q # ps)"
  show ?case
  proof (cases "rtrim_list (q # ps)")
    case Nil
    then have "list_all is_space ?r"
      using rtrim_list_Nil[of "q # ps"] all_space_join[of "q # ps"] by simp
    then have "list_all is_space (nl # nl # ?r)" by simp
    then have "rtrim (p @ nl # nl # ?r) = rtrim p"
      by (simp only: rtrim_append if_True)
    then show ?thesis using Nil by (simp add: rtrim_all_space)
  next
    case (Cons x xs)
    then have n: "\<not> list_all is_space ?r"
      using rtrim_list_Nil[of "q # ps"] all_space_join[of "q # ps"] by auto
    then have "\<not> list_all is_space (nl # nl # ?r)" by simp
    then have "rtrim (p @ nl # nl # ?r) = p @ rtrim ([nl, nl] @ ?r)"
      by (simp only: rtrim_append if_False append_Cons append_Nil)
    also have "\<dots> = p @ [nl, nl] @ rtrim ?r"
      using n by (simp only: rtrim_append if_False)
    also have "\<dots> = p @ [nl, nl] @ join_paras (x # xs)"
      using 3 Cons by simp
    finally show ?thesis using Cons by simp
  qed
qed

lemma trim_join: "trim (join_paras ps) = join_paras (rtrim_list (ltrim_list ps))"
  by (simp add: trim_ltrim_rtrim ltrim_join rtrim_join)

subsection \<open>Trimming keeps the shape of a split\<close>

lemma noNN_dropWhile: "noNN s \<Longrightarrow> noNN (dropWhile P s)"
  by (induction s) (auto simp: noNN_Cons)

lemma noNN_append_left: "noNN (a @ b) \<Longrightarrow> noNN a"
  by (induction a) (auto simp: noNN_Cons starts_with_nl)

lemma noNN_ltrim: "noNN p \<Longrightarrow> noNN (ltrim p)"
  unfolding ltrim_def by (rule noNN_dropWhile)

lemma noNN_rtrim: "noNN p \<Longrightarrow> noNN (rtrim p)"
  using rtrim_decomp[of p] noNN_append_left[of "rtrim p"] by metis

lemma ends_nl_ltrim: "\<not> list_all is_space p \<Longrightarrow> ends_nl (ltrim p) = ends_nl p"
proof -
  assume "\<not> list_all is_space p"
  then have "dropWhile is_space p \<noteq> []" by (simp add: list_all_iff)
  moreover have "p = takeWhile is_space p @ dropWhile is_space p" by simp
  ultimately have "last p = last (dropWhile is_space p)" "p \<noteq> []"
    by (metis last_appendR, auto)
  then show ?thesis using \<open>dropWhile is_space p \<noteq> []\<close> by (simp add: ends_nl_def ltrim_def)
qed

lemma starts_nl_rtrim: "\<not> list_all is_space p \<Longrightarrow> starts_with (rtrim p) [nl] = starts_with p [nl]"
proof -
  assume a: "\<not> list_all is_space p"
  obtain w where w: "p = rtrim p @ w" "list_all is_space w"
    using rtrim_decomp by blast
  have "rtrim p \<noteq> []" using a w by auto
  then have "hd p = hd (rtrim p)" "p \<noteq> []" using w(1) by (metis hd_append2, auto)
  then show ?thesis using \<open>rtrim p \<noteq> []\<close> by (simp add: starts_with_nl)
qed

lemma good_ltrim_list: "good ps \<Longrightarrow> good (ltrim_list ps)"
proof (induction ps rule: join_paras.induct)
  case 1
  then show ?case by simp
next
  case (2 p)
  then show ?case by (simp add: noNN_ltrim)
next
  case (3 p q ps)
  show ?case
  proof (cases "list_all is_space p")
    case True
    have "good (q # ps)" using 3(2) by (simp add: good_tail_good del: good_tail.simps)
    then show ?thesis using 3(1) True by simp
  next
    case False
    then show ?thesis using 3(2) by (simp add: noNN_ltrim ends_nl_ltrim)
  qed
qed

lemma good_tail_rtrim_list: "good_tail ps \<Longrightarrow> good_tail (rtrim_list ps)"
proof (induction ps rule: good_tail.induct)
  case 1
  then show ?case by simp
next
  case (2 p)
  then show ?case by (simp add: noNN_rtrim starts_nl_rtrim)
next
  case (3 p q ps)
  show ?case
  proof (cases "rtrim_list (q # ps)")
    case Nil
    then show ?thesis using 3(2) by (simp add: noNN_rtrim starts_nl_rtrim)
  next
    case (Cons x xs)
    then have "good_tail (x # xs)" using 3 by simp
    then show ?thesis using 3(2) Cons by simp
  qed
qed

lemma good_rtrim_list: "good ps \<Longrightarrow> good (rtrim_list ps)"
proof (cases ps rule: good.cases)
  case 1
  then show ?thesis by simp
next
  case (2 p)
  assume "good ps"
  then show ?thesis using 2 by (simp add: noNN_rtrim)
next
  case (3 p q qs)
  assume g: "good ps"
  show ?thesis
  proof (cases "rtrim_list (q # qs)")
    case Nil
    then show ?thesis using g 3 by (simp add: noNN_rtrim)
  next
    case (Cons x xs)
    have "good_tail (rtrim_list (q # qs))"
      using g 3 by (intro good_tail_rtrim_list) simp
    then show ?thesis using g 3 Cons by simp
  qed
qed

lemma ltrim_list_elems:
  "p' \<in> set (ltrim_list ps) \<Longrightarrow> \<exists>p \<in> set ps. p' = p \<or> p' = ltrim p"
  by (induction ps) (auto split: if_splits)

lemma rtrim_list_elems:
  "p' \<in> set (rtrim_list ps) \<Longrightarrow> \<exists>p \<in> set ps. p' = p \<or> p' = rtrim p"
proof (induction ps arbitrary: p')
  case Nil
  then show ?case by simp
next
  case (Cons a ps)
  show ?case
  proof (cases "rtrim_list ps")
    case Nil
    then show ?thesis using Cons.prems by (auto split: if_splits)
  next
    case (Cons x xs)
    then have "p' = a \<or> p' \<in> set (rtrim_list ps)" using Cons.prems by auto
    then show ?thesis using Cons.IH by auto
  qed
qed

lemma trimmed_elems:
  assumes "p' \<in> set (rtrim_list (ltrim_list ps))"
  shows "\<exists>p \<in> set ps. sublist p' p \<and> trim p' = trim p"
proof -
  obtain q where q: "q \<in> set (ltrim_list ps)" "p' = q \<or> p' = rtrim q"
    using rtrim_list_elems[OF assms] by blast
  obtain p where p: "p \<in> set ps" "q = p \<or> q = ltrim p"
    using ltrim_list_elems[OF q(1)] by blast
  have "sublist q p \<and> trim q = trim p"
    using p(2) by (auto simp: sublist_ltrim trim_ltrim)
  moreover have "sublist p' q \<and> trim p' = trim q"
    using q(2) by (auto simp: sublist_rtrim trim_rtrim)
  ultimately have "sublist p' p \<and> trim p' = trim p"
    by (auto intro: sublist_order.order.trans)
  then show ?thesis using p(1) by blast
qed

subsection \<open>One pass of the scrub\<close>

lemma scrub_eq:
  "scrub fs j =
     (let s = answer_text (answer j);
          U = unknown_files fs s
      in if s = [] \<or> U = [] then j
         else
           (let t = trim (join_paras (filter (keep_para fs U) (split_paras s)))
            in \<lparr> answer = JStr (if t = [] then absent_sentence else t),
                 references = references j, trace = trace j, sources = sources j,
                 missing = JArr (foldl add_missing (as_array (missing j)) (map strip_ext U)),
                 cannot_answer = (if t = [] then JBool False else cannot_answer j),
                 reason = reason_or removed_reason (reason j) \<rparr>))"
  by (cases j) (simp add: scrub_def Let_def)

lemma set_uniq [simp]: "set (uniq xs) = set xs"
  by (simp add: uniq_def)

lemma set_unknown_files: "set (unknown_files fs s) = {m \<in> set (match_all s). m \<notin> availablePaths fs}"
  by (auto simp: unknown_files_def)

lemma unknown_files_Nil [simp]: "unknown_files fs [] = []"
  by (simp add: unknown_files_def uniq_def)

lemma foldl_add_missing_keeps: "x \<in> set ms \<Longrightarrow> x \<in> set (foldl add_missing ms as)"
  by (induction as arbitrary: ms) (auto simp: add_missing_def)

lemma foldl_add_missing_adds: "a \<in> set as \<Longrightarrow> JStr a \<in> set (foldl add_missing ms as)"
proof (induction as arbitrary: ms)
  case Nil
  then show ?case by simp
next
  case (Cons b as)
  show ?case
  proof (cases "a = b")
    case True
    have "JStr a \<in> set (add_missing ms b)" using True by (simp add: add_missing_def)
    then show ?thesis by (simp add: foldl_add_missing_keeps)
  next
    case False
    then show ?thesis using Cons by simp
  qed
qed

lemma foldl_add_missing_id: "\<forall>a \<in> set as. JStr a \<in> set ms \<Longrightarrow> foldl add_missing ms as = ms"
  by (induction as) (auto simp: add_missing_def)

lemma match_all_absent_sentence: "match_all absent_sentence = []"
  by (simp add: match_all_def absent_sentence_def is_cls_def ext_at_def file_exts_def)

lemma reason_or_truthy: "truthy (reason_or removed_reason r)"
  by (simp add: reason_or_def removed_reason_def)

lemma reason_or_id: "truthy r \<Longrightarrow> reason_or d r = r"
  by (simp add: reason_or_def)

subsection \<open>After one pass nothing is left to remove\<close>

lemma kept_matches:
  "set (match_all (trim (join_paras (filter P (split_paras s))))) \<subseteq> set (match_all s)"
proof -
  have "set (match_all (trim (join_paras (filter P (split_paras s)))))
        = (\<Union>p \<in> set (filter P (split_paras s)). set (match_all p))"
    by (simp add: match_all_trim match_all_join)
  also have "\<dots> \<subseteq> (\<Union>p \<in> set (split_paras s). set (match_all p))"
    by auto
  also have "\<dots> = set (match_all s)"
    by (subst (2) match_all_split) simp
  finally show ?thesis .
qed

lemma kept_stable:
  assumes t: "t = trim (join_paras (filter (keep_para fs U) (split_paras s)))"
    and ne: "t \<noteq> []" and sub: "set U' \<subseteq> set U"
  shows "filter (keep_para fs U') (split_paras t) = split_paras t
       \<and> trim (join_paras (split_paras t)) = t"
proof -
  let ?K = "filter (keep_para fs U) (split_paras s)"
  let ?K' = "rtrim_list (ltrim_list ?K)"
  have j: "t = join_paras ?K'" unfolding t by (rule trim_join)
  have g: "good ?K'"
    by (intro good_rtrim_list good_ltrim_list good_filter good_split_paras)
  have "?K' \<noteq> []" using j ne by auto
  then have sp: "split_paras t = ?K'" unfolding j by (rule split_join[OF g])
  have keep: "keep_para fs U' p'" if h: "p' \<in> set ?K'" for p'
  proof -
    obtain k where k: "k \<in> set ?K" "sublist p' k" "trim p' = trim k"
      using trimmed_elems[OF h] by blast
    have kk: "keep_para fs U k" using k(1) by simp
    show ?thesis
    proof (cases "trim k \<in> availablePaths fs")
      case True
      then show ?thesis using k(3) by (simp add: keep_para_def)
    next
      case False
      then have "\<forall>u \<in> set U. \<not> includes_str k u"
        using kk by (simp add: keep_para_def list_ex_iff)
      then have "\<forall>u \<in> set U'. \<not> includes_str p' u"
        using sub includes_str_mono[OF k(2)] by blast
      then show ?thesis by (simp add: keep_para_def list_ex_iff)
    qed
  qed
  have "filter (keep_para fs U') (split_paras t) = split_paras t"
    unfolding sp using keep by (simp add: filter_id_conv)
  moreover have "trim (join_paras (split_paras t)) = t"
    unfolding sp j[symmetric] unfolding t by (rule trim_trim)
  ultimately show ?thesis by simp
qed

lemma scrub_twice: "scrub fs (scrub fs j) = scrub fs j"
proof -
  let ?A = "availablePaths fs"
  let ?s = "answer_text (answer j)"
  let ?U = "unknown_files fs ?s"
  show ?thesis
  proof (cases "?s = [] \<or> ?U = []")
    case True
    then have "scrub fs j = j" by (simp add: scrub_eq[of fs j] Let_def)
    then show ?thesis by simp
  next
    case False
    let ?t = "trim (join_paras (filter (keep_para fs ?U) (split_paras ?s)))"
    let ?t' = "if ?t = [] then absent_sentence else ?t"
    let ?ms = "foldl add_missing (as_array (missing j)) (map strip_ext ?U)"
    let ?j' = "\<lparr> answer = JStr ?t', references = references j, trace = trace j, sources = sources j,
                 missing = JArr ?ms,
                 cannot_answer = (if ?t = [] then JBool False else cannot_answer j),
                 reason = reason_or removed_reason (reason j) \<rparr>"
    have first: "scrub fs j = ?j'"
      using False by (simp add: scrub_eq[of fs j] Let_def)
    let ?U' = "unknown_files fs ?t'"
    have at: "answer_text (answer ?j') = ?t'" by simp
    have "scrub fs ?j' = ?j'"
    proof (cases "?U' = []")
      case True
      then show ?thesis by (simp add: scrub_eq[of fs ?j'] Let_def)
    next
      case U': False
      have tne: "?t \<noteq> []"
      proof
        assume "?t = []"
        then have "?t' = absent_sentence" by simp
        then have "?U' = []" by (simp add: match_all_absent_sentence uniq_def unknown_files_def)
        then show False using U' by simp
      qed
      then have t': "?t' = ?t" by simp
      have sub: "set ?U' \<subseteq> set ?U"
        unfolding t' set_unknown_files using kept_matches[of "keep_para fs ?U" ?s] by auto
      note st = kept_stable[OF refl tne sub]
      have t2: "trim (join_paras (filter (keep_para fs ?U') (split_paras ?t))) = ?t"
        using st by simp
      have "\<forall>a \<in> set (map strip_ext ?U'). JStr a \<in> set ?ms"
        using sub by (auto intro!: foldl_add_missing_adds)
      then have ms: "foldl add_missing ?ms (map strip_ext ?U') = ?ms"
        by (rule foldl_add_missing_id)
      have rs: "reason_or removed_reason (reason_or removed_reason (reason j)) = reason_or removed_reason (reason j)"
        by (rule reason_or_id[OF reason_or_truthy])
      have "scrub fs ?j' =
            \<lparr> answer = JStr ?t, references = references j, trace = trace j, sources = sources j,
              missing = JArr ?ms, cannot_answer = cannot_answer j,
              reason = reason_or removed_reason (reason j) \<rparr>"
        unfolding scrub_eq[of fs ?j'] Let_def at
        using U' tne t2 ms rs unfolding t' by simp
      then show ?thesis using tne by simp
    qed
    then show ?thesis unfolding first .
  qed
qed


lemma keep_para_Nil [simp]: "keep_para fs [] p"
  by (simp add: keep_para_def)

lemma scrub_settled:
  "(\<forall>p \<in> set (split_paras (answer_text (answer (scrub fs j)))).
       keep_para fs (unknown_files fs (answer_text (answer (scrub fs j)))) p)
   \<and> (\<forall>u \<in> set (unknown_files fs (answer_text (answer (scrub fs j)))).
       JStr (strip_ext u) \<in> set (as_array (missing (scrub fs j))))"
proof -
  let ?s = "answer_text (answer j)"
  let ?U = "unknown_files fs ?s"
  show ?thesis
  proof (cases "?s = [] \<or> ?U = []")
    case True
    then have "scrub fs j = j" by (simp add: scrub_eq[of fs j] Let_def)
    moreover have "?U = []" using True by auto
    ultimately show ?thesis by simp
  next
    case False
    let ?t = "trim (join_paras (filter (keep_para fs ?U) (split_paras ?s)))"
    let ?ms = "foldl add_missing (as_array (missing j)) (map strip_ext ?U)"
    show ?thesis
    proof (cases "?t = []")
      case True
      then have "answer_text (answer (scrub fs j)) = absent_sentence"
        using False by (simp add: scrub_eq[of fs j] Let_def)
      moreover have "unknown_files fs absent_sentence = []"
        by (simp add: match_all_absent_sentence uniq_def unknown_files_def)
      ultimately show ?thesis by simp
    next
      case tne: False
      have a: "answer_text (answer (scrub fs j)) = ?t"
        using False tne by (simp add: scrub_eq[of fs j] Let_def)
      have m: "as_array (missing (scrub fs j)) = ?ms"
        using False by (simp add: scrub_eq[of fs j] Let_def)
      let ?U' = "unknown_files fs ?t"
      have sub: "set ?U' \<subseteq> set ?U"
        unfolding set_unknown_files using kept_matches[of "keep_para fs ?U" ?s] by auto
      have "filter (keep_para fs ?U') (split_paras ?t) = split_paras ?t"
        using kept_stable[OF refl tne sub] by simp
      then have k: "\<forall>p \<in> set (split_paras ?t). keep_para fs ?U' p"
        by (simp add: filter_id_conv)
      have "\<forall>u \<in> set ?U'. JStr (strip_ext u) \<in> set ?ms"
        using sub by (auto intro!: foldl_add_missing_adds)
      then show ?thesis unfolding a m using k by simp
    qed
  qed
qed

lemma ex_two_paragraphs_eval: "scrub [ex_main_js] ex_two_paragraphs = ex_scrubbed"
  by (simp add: scrub_defs availablePaths_def ex_main_js_def ex_two_paragraphs_def ex_scrubbed_def)

text \<open>
  C6. A second scrub pass against the same files changes nothing: the answer, the missing
  list and the \<open>cannot_answer\<close> flag (and every other field) stay as the first pass left
  them. After one pass every paragraph of the answer is one the scrub keeps, and the
  concept of every file-like token that is still unknown is already listed in \<open>missing\<close>.
\<close>

theorem scrub_idempotent:
  "scrub fs (scrub fs j) = scrub fs j
   \<and> (\<forall>p \<in> set (split_paras (answer_text (answer (scrub fs j)))).
         keep_para fs (unknown_files fs (answer_text (answer (scrub fs j)))) p)
   \<and> (\<forall>u \<in> set (unknown_files fs (answer_text (answer (scrub fs j)))).
         JStr (strip_ext u) \<in> set (as_array (missing (scrub fs j))))"
  using scrub_twice[of fs j] scrub_settled[of fs j] by simp

theorem scrub_idempotent_witness:
  "scrub [ex_main_js] ex_two_paragraphs = ex_scrubbed
   \<and> scrub [ex_main_js] ex_scrubbed = ex_scrubbed
   \<and> answer ex_scrubbed = JStr ''Entry is main.js.''
   \<and> missing ex_scrubbed = JArr [JStr ''ghost'']"
proof -
  have "scrub [ex_main_js] (scrub [ex_main_js] ex_two_paragraphs) = scrub [ex_main_js] ex_two_paragraphs"
    using scrub_idempotent[of "[ex_main_js]" ex_two_paragraphs] by (rule conjunct1)
  then have a: "scrub [ex_main_js] ex_scrubbed = ex_scrubbed"
    unfolding ex_two_paragraphs_eval .
  have b: "answer ex_scrubbed = JStr ''Entry is main.js.''" "missing ex_scrubbed = JArr [JStr ''ghost'']"
    by (simp_all add: ex_scrubbed_def)
  show ?thesis
    by (intro conjI ex_two_paragraphs_eval a b)
qed

end
